theory Spec2Isabelle
  imports Main "HOL-Library.Multiset"
begin

section \<open>Exceptions and Python list indexing\<close>

text \<open>
  The exceptions of \<^verbatim>\<open>main.py\<close>, together with the three built-in exceptions that the
  list operations and \<^verbatim>\<open>randint\<close> used by the program can raise.  A call that raises
  returns \<open>Inl\<close> of the exception.
\<close>

datatype error =
    RequestOutOfBounds
  | IncorrectCharacter string
  | IsNotCharacter string
  | IncorrectSize int
  | IllegalMove
  | IndexError
  | ValueError
  | TypeError
  | ZeroDivisionError

text \<open>
  \<^verbatim>\<open>xs[i]\<close>: a negative index counts from the end, an index outside
  \<open>[-len, len)\<close> raises \<^verbatim>\<open>IndexError\<close>.
\<close>

definition py_index :: "'a list \<Rightarrow> int \<Rightarrow> nat option" where
  "py_index xs i =
     (let n = int (length xs); j = (if i < 0 then n + i else i)
      in if 0 \<le> j \<and> j < n then Some (nat j) else None)"

definition py_get :: "'a list \<Rightarrow> int \<Rightarrow> error + 'a" where
  "py_get xs i = (case py_index xs i of None \<Rightarrow> Inl IndexError | Some j \<Rightarrow> Inr (xs ! j))"

text \<open>\<^verbatim>\<open>xs[i] = v\<close>, with the same index rule.\<close>

definition py_set :: "'a list \<Rightarrow> int \<Rightarrow> 'a \<Rightarrow> error + 'a list" where
  "py_set xs i v = (case py_index xs i of None \<Rightarrow> Inl IndexError | Some j \<Rightarrow> Inr (xs[j := v]))"

text \<open>\<^verbatim>\<open>x in range(n)\<close> for integers.\<close>

definition in_range :: "int \<Rightarrow> int \<Rightarrow> bool" where
  "in_range x n \<longleftrightarrow> 0 \<le> x \<and> x < n"

text \<open>Sequencing of calls that may raise: the first exception is the result.\<close>

definition bind_err :: "error + 'a \<Rightarrow> ('a \<Rightarrow> error + 'b) \<Rightarrow> error + 'b" where
  "bind_err m f = (case m of Inl e \<Rightarrow> Inl e | Inr x \<Rightarrow> f x)"

section \<open>The alphabet table and the Sudoku object\<close>

text \<open>
  \<^verbatim>\<open>AVAILABLE_CHARS = list("123...xyz?&!")\<close>: the list of the one-character strings of
  the literal, in order.
\<close>

definition AVAILABLE_CHARS :: "string list" where
  "AVAILABLE_CHARS =
     map (\<lambda>c. [c]) ''123456789ABCDEFGHIJKLMNOPQRSTUVWXYZabcdefghijklmnopqrstuvwxyz?&!''"

text \<open>
  The fields of a \<^verbatim>\<open>Sudoku\<close> instance.  \<open>sudoku\<close> is the nested list: lines of squares,
  each square a list of inner lines.  The type \<open>'r\<close> of an inner line is \<open>string list\<close>
  when the grid is taken by its cell contents, and a reference when the inner lines are
  objects of a store (see the cell write below).  The field \<^verbatim>\<open>size\<close> is named \<open>size_s\<close>.
\<close>

record 'r Sudoku =
  size_s :: int
  sudoku :: "'r list list list"
  chars :: "string list"

text \<open>\<^verbatim>\<open>AVAILABLE_CHARS[:size**2]\<close>.\<close>

definition alphabet :: "int \<Rightarrow> string list" where
  "alphabet n = take (nat (n * n)) AVAILABLE_CHARS"

section \<open>Accessors\<close>

text \<open>
  A grid taken by its cell contents: the inner lines are lists of cells, a cell is a
  Python string.
\<close>

type_synonym grid = "string list list list list"

definition get_cell :: "string list Sudoku \<Rightarrow> int \<Rightarrow> int \<Rightarrow> error + string" where
  "get_cell s column line =
     (let column = column - 1; line = line - 1 in
      if \<not> in_range line (size_s s ^ 2) \<or> \<not> in_range column (size_s s ^ 2)
      then Inl RequestOutOfBounds
      else bind_err (py_get (sudoku s) (line div size_s s)) (\<lambda>sudoku_line.
           bind_err (py_get sudoku_line (column div size_s s)) (\<lambda>sudoku_square.
           bind_err (py_get sudoku_square (line mod size_s s)) (\<lambda>square_line.
           py_get square_line (column mod size_s s)))))"

text \<open>The loop of \<^verbatim>\<open>get_line_elements\<close> over the squares of one line of squares.\<close>

fun line_squares :: "string list list list \<Rightarrow> int \<Rightarrow> string list \<Rightarrow> error + string list" where
  "line_squares [] k result = Inr result"
| "line_squares (sudoku_square # rest) k result =
     bind_err (py_get sudoku_square k) (\<lambda>square_line.
     line_squares rest k (result @ square_line))"

definition get_line_elements :: "string list Sudoku \<Rightarrow> int \<Rightarrow> error + string list" where
  "get_line_elements s line =
     (let line = line - 1 in
      if \<not> in_range line (size_s s ^ 2) then Inl RequestOutOfBounds
      else bind_err (py_get (sudoku s) (line div size_s s)) (\<lambda>sudoku_line.
           line_squares sudoku_line (line mod size_s s) []))"

text \<open>The two nested loops of \<^verbatim>\<open>get_column_elements\<close>.\<close>

fun column_cells :: "string list list \<Rightarrow> int \<Rightarrow> string list \<Rightarrow> error + string list" where
  "column_cells [] k result = Inr result"
| "column_cells (square_line # rest) k result =
     bind_err (py_get square_line k) (\<lambda>c. column_cells rest k (result @ [c]))"

fun column_lines :: "grid \<Rightarrow> int \<Rightarrow> int \<Rightarrow> string list \<Rightarrow> error + string list" where
  "column_lines [] q k result = Inr result"
| "column_lines (sudoku_line # rest) q k result =
     bind_err (py_get sudoku_line q) (\<lambda>sudoku_square.
     bind_err (column_cells sudoku_square k result) (\<lambda>result.
     column_lines rest q k result))"

definition get_column_elements :: "string list Sudoku \<Rightarrow> int \<Rightarrow> error + string list" where
  "get_column_elements s column =
     (let column = column - 1 in
      if \<not> in_range column (size_s s ^ 2) then Inl RequestOutOfBounds
      else column_lines (sudoku s) (column div size_s s) (column mod size_s s) [])"

text \<open>
  \<^verbatim>\<open>get_square_elements\<close>; its loop appends the inner lines of the square one after
  the other, which is \<open>concat\<close>.
\<close>

definition get_square_elements :: "string list Sudoku \<Rightarrow> int \<Rightarrow> int \<Rightarrow> error + string list" where
  "get_square_elements s square_column_no square_line_no =
     (let square_column_no = square_column_no - 1; square_line_no = square_line_no - 1 in
      if \<not> in_range square_column_no (size_s s) \<or> \<not> in_range square_line_no (size_s s)
      then Inl RequestOutOfBounds
      else bind_err (py_get (sudoku s) square_line_no) (\<lambda>sudoku_line.
           bind_err (py_get sudoku_line square_column_no) (\<lambda>sudoku_square.
           Inr (concat sudoku_square))))"

section \<open>The rule check and the cell write\<close>

definition is_violating :: "string list Sudoku \<Rightarrow> string \<Rightarrow> int \<Rightarrow> int \<Rightarrow> error + bool" where
  "is_violating s char column line =
     (if length char \<noteq> 1 then Inl (IsNotCharacter char)
      else if char \<notin> set (chars s) then Inl (IncorrectCharacter char)
      else bind_err (get_line_elements s line) (\<lambda>line_elements.
           bind_err (get_column_elements s column) (\<lambda>column_elements.
           bind_err (get_square_elements s (((column - 1) div size_s s) + 1)
                       (((line - 1) div size_s s) + 1)) (\<lambda>square_elements.
           Inr (char \<in> set line_elements \<or> char \<in> set column_elements
                \<or> char \<in> set square_elements)))))"

text \<open>
  A cell write is an assignment into an inner line, a list object that more than one
  place of a grid, and more than one grid, may refer to.  The inner lines therefore live
  in a store, a list of inner lines; a reference is an index into it and allocation
  appends.  An object refers to the store through \<open>sudoku\<close>, the nested list of the
  references of its inner lines (type \<open>nat Sudoku\<close>).  The three list levels above the
  inner lines are never assigned to in \<^verbatim>\<open>main.py\<close> and stay values.  \<open>view\<close> gives the
  cell contents of an object in a store, which is all that the accessors and
  \<^verbatim>\<open>is_violating\<close> read.
\<close>

type_synonym store = "string list list"

definition view :: "store \<Rightarrow> nat Sudoku \<Rightarrow> string list Sudoku" where
  "view st ob =
     \<lparr>size_s = size_s ob, sudoku = map (map (map (\<lambda>a. st ! a))) (sudoku ob), chars = chars ob\<rparr>"

text \<open>\<^verbatim>\<open>g[a][b][c][d] = char\<close>: three reads that end at an inner line, then the store into it.\<close>

definition set_cell ::
  "store \<Rightarrow> nat list list list \<Rightarrow> int \<Rightarrow> int \<Rightarrow> int \<Rightarrow> int \<Rightarrow> string \<Rightarrow> error + store" where
  "set_cell st g a b c d char =
     bind_err (py_get g a) (\<lambda>sudoku_line.
     bind_err (py_get sudoku_line b) (\<lambda>sudoku_square.
     bind_err (py_get sudoku_square c) (\<lambda>square_line.
     bind_err (py_set (st ! square_line) d char) (\<lambda>cells.
     Inr (st[square_line := cells])))))"

text \<open>
  \<^verbatim>\<open>insert_into_cell\<close>: the exception raised, if any, and the store after the call.  The
  check is skipped when \<open>no_check\<close> holds (\<^verbatim>\<open>not no_check and ...\<close>).  The floor divisions
  by \<^verbatim>\<open>self.size\<close> raise \<^verbatim>\<open>ZeroDivisionError\<close> when it is 0.
\<close>

definition insert_into_cell ::
  "store \<Rightarrow> nat Sudoku \<Rightarrow> string \<Rightarrow> int \<Rightarrow> int \<Rightarrow> bool \<Rightarrow> error option \<times> store" where
  "insert_into_cell st self char column line no_check =
     (case (if no_check then Inr False else is_violating (view st self) char column line) of
        Inl e \<Rightarrow> (Some e, st)
      | Inr True \<Rightarrow> (Some IllegalMove, st)
      | Inr False \<Rightarrow>
          if size_s self = 0 then (Some ZeroDivisionError, st)
          else (case set_cell st (sudoku self) ((line - 1) div size_s self)
                       ((column - 1) div size_s self) ((line - 1) mod size_s self)
                       ((column - 1) mod size_s self) char of
                  Inl e \<Rightarrow> (Some e, st)
                | Inr st' \<Rightarrow> (None, st')))"

text \<open>
  The references of an object are allocated (\<open>valid_refs\<close>); no two inner lines of an
  object are the same list (\<open>unshared\<close>).
\<close>

definition valid_refs :: "store \<Rightarrow> nat list list list \<Rightarrow> bool" where
  "valid_refs st g \<longleftrightarrow> (\<forall>a \<in> set (concat (concat g)). a < length st)"

definition unshared :: "nat list list list \<Rightarrow> bool" where
  "unshared g \<longleftrightarrow> distinct (concat (concat g))"

text \<open>
  The write on an unshared object, told on its cell contents.  When no two inner lines
  of the object are the same list, the assignment changes one cell of the contents and
  no other, so that the contents after the call are the contents before with the lists
  along the one path \<open>a\<close>, \<open>b\<close>, \<open>c\<close>, \<open>d\<close> replaced: lemma \<open>insert_into_cell_unshared_eq\<close>
  below proves that \<open>insert_into_cell\<close> on an unshared object does to its \<open>view\<close> what
  \<open>insert_into_cell_unshared\<close> does.  It is not so for an object with a shared inner
  line, and these two functions are used for no such object: their one use is in the
  generation loops of the constructor, the grid of which is built by a comprehension that
  makes a new list for every inner line.
\<close>

definition set_cell_unshared :: "grid \<Rightarrow> int \<Rightarrow> int \<Rightarrow> int \<Rightarrow> int \<Rightarrow> string \<Rightarrow> error + grid" where
  "set_cell_unshared g a b c d char =
     bind_err (py_get g a) (\<lambda>sudoku_line.
     bind_err (py_get sudoku_line b) (\<lambda>sudoku_square.
     bind_err (py_get sudoku_square c) (\<lambda>square_line.
     bind_err (py_set square_line d char) (\<lambda>square_line'.
     bind_err (py_set sudoku_square c square_line') (\<lambda>sudoku_square'.
     bind_err (py_set sudoku_line b sudoku_square') (\<lambda>sudoku_line'.
     py_set g a sudoku_line'))))))"

text \<open>The exception raised, if any, and the contents of the object after the call.\<close>

definition insert_into_cell_unshared ::
  "string list Sudoku \<Rightarrow> string \<Rightarrow> int \<Rightarrow> int \<Rightarrow> bool \<Rightarrow> error option \<times> string list Sudoku" where
  "insert_into_cell_unshared s char column line no_check =
     (case (if no_check then Inr False else is_violating s char column line) of
        Inl e \<Rightarrow> (Some e, s)
      | Inr True \<Rightarrow> (Some IllegalMove, s)
      | Inr False \<Rightarrow>
          if size_s s = 0 then (Some ZeroDivisionError, s)
          else (case set_cell_unshared (sudoku s) ((line - 1) div size_s s) ((column - 1) div size_s s)
                       ((line - 1) mod size_s s) ((column - 1) mod size_s s) char of
                  Inl e \<Rightarrow> (Some e, s)
                | Inr g \<Rightarrow> (None, s\<lparr>sudoku := g\<rparr>)))"

section \<open>The constructor\<close>

text \<open>
  The random source is the list of the numbers the coming calls of \<^verbatim>\<open>randint\<close> draw
  from.  \<^verbatim>\<open>randint(a, b)\<close> raises \<^verbatim>\<open>ValueError\<close> on an empty range; otherwise it takes
  the next number \<open>r\<close> of the source and returns \<open>a + r mod (b - a + 1)\<close>, so that every
  value of \<open>[a, b]\<close> is a possible result.  A run that asks for more numbers than the
  source holds has no result (\<open>None\<close>), as has a run that does not end.
\<close>

definition randint :: "int \<Rightarrow> int \<Rightarrow> nat list \<Rightarrow> (error + int \<times> nat list) option" where
  "randint a b rs =
     (if b < a then Some (Inl ValueError)
      else case rs of [] \<Rightarrow> None
           | r # rs' \<Rightarrow> Some (Inr (a + int r mod (b - a + 1), rs')))"

text \<open>The branch of \<^verbatim>\<open>__init__\<close> taken when \<^verbatim>\<open>len(architecture) > 0\<close>.\<close>

definition from_architecture :: "'r list list list \<Rightarrow> 'r Sudoku" where
  "from_architecture architecture =
     \<lparr>size_s = int (length architecture), sudoku = architecture,
      chars = alphabet (int (length architecture))\<rparr>"

text \<open>The nested comprehension that builds the grid of \<^verbatim>\<open>"#"\<close>.\<close>

definition empty_grid :: "int \<Rightarrow> grid" where
  "empty_grid n =
     replicate (nat n) (replicate (nat n) (replicate (nat n) (replicate (nat n) ''#'')))"

text \<open>
  The condition of the innermost loop:
  \<^verbatim>\<open>pick is None or (self.is_violating(pick, column, line) and len(treshold[i]) > 1)\<close>.
\<close>

definition draw_cond ::
  "string list Sudoku \<Rightarrow> string list list \<Rightarrow> int \<Rightarrow> string option \<Rightarrow> int \<Rightarrow> int \<Rightarrow> error + bool" where
  "draw_cond s treshold i pick column line =
     (case pick of
        None \<Rightarrow> Inr True
      | Some p \<Rightarrow>
          bind_err (is_violating s p column line) (\<lambda>v.
          if v then bind_err (py_get treshold i) (\<lambda>pool. Inr (length pool > 1))
          else Inr False))"

text \<open>
  The body of the innermost loop.  \<^verbatim>\<open>treshold[i].pop(treshold[i].index(pick))\<close> removes
  the first occurrence of \<open>pick\<close>, which is \<open>remove1\<close>.
\<close>

definition draw_body ::
  "string list Sudoku \<Rightarrow> string list list \<Rightarrow> int \<Rightarrow> nat list
     \<Rightarrow> (error + string list list \<times> string \<times> nat list) option" where
  "draw_body s treshold i rs =
     (case py_get treshold i of Inl e \<Rightarrow> Some (Inl e) | Inr pool \<Rightarrow>
      case (if length pool < 1 then py_set treshold i (chars s) else Inr treshold) of
        Inl e \<Rightarrow> Some (Inl e) | Inr treshold \<Rightarrow>
      case py_get treshold i of Inl e \<Rightarrow> Some (Inl e) | Inr pool \<Rightarrow>
      case randint 0 (int (length pool) - 1) rs of
        None \<Rightarrow> None | Some (Inl e) \<Rightarrow> Some (Inl e) | Some (Inr (k, rs)) \<Rightarrow>
      case py_get pool k of Inl e \<Rightarrow> Some (Inl e) | Inr pick \<Rightarrow>
      case py_set treshold i (remove1 pick pool) of
        Inl e \<Rightarrow> Some (Inl e) | Inr treshold \<Rightarrow> Some (Inr (treshold, pick, rs)))"

partial_function (option) draw_loop ::
  "string list Sudoku \<Rightarrow> string list list \<Rightarrow> int \<Rightarrow> string option \<Rightarrow> int \<Rightarrow> int \<Rightarrow> nat list
     \<Rightarrow> (error + string list list \<times> string option \<times> nat list) option" where
  "draw_loop s treshold i pick column line rs =
     (case draw_cond s treshold i pick column line of
        Inl e \<Rightarrow> Some (Inl e)
      | Inr again \<Rightarrow>
          if again then
            (case draw_body s treshold i rs of
               None \<Rightarrow> None
             | Some (Inl e) \<Rightarrow> Some (Inl e)
             | Some (Inr (treshold, pick, rs)) \<Rightarrow>
                 draw_loop s treshold i (Some pick) column line rs)
          else Some (Inr (treshold, pick, rs)))"

text \<open>
  The loop over the columns of one line.  After the innermost loop \<open>pick\<close> is a string;
  were it \<^verbatim>\<open>None\<close>, \<^verbatim>\<open>len(char)\<close> in \<^verbatim>\<open>is_violating\<close> would raise \<^verbatim>\<open>TypeError\<close>.
\<close>

partial_function (option) column_loop ::
  "string list Sudoku \<Rightarrow> string list list \<Rightarrow> int \<Rightarrow> int \<Rightarrow> int \<Rightarrow> nat list
     \<Rightarrow> (error + string list Sudoku \<times> string list list \<times> int \<times> int \<times> nat list) option" where
  "column_loop s treshold line column i rs =
     (if column < size_s s ^ 2 + 1 \<and> column > 0 then
        (case draw_loop s treshold i None column line rs of
           None \<Rightarrow> None
         | Some (Inl e) \<Rightarrow> Some (Inl e)
         | Some (Inr (treshold, None, rs)) \<Rightarrow> Some (Inl TypeError)
         | Some (Inr (treshold, Some pick, rs)) \<Rightarrow>
             (case is_violating s pick column line of
                Inl e \<Rightarrow> Some (Inl e)
              | Inr violating \<Rightarrow>
                  if violating then
                    (case insert_into_cell_unshared s ''#'' column line True of
                       (Some e, s) \<Rightarrow> Some (Inl e)
                     | (None, s) \<Rightarrow>
                         (case py_set treshold i (chars s) of
                            Inl e \<Rightarrow> Some (Inl e)
                          | Inr treshold \<Rightarrow>
                              column_loop s treshold line (column - 1) (i - 1) rs))
                  else
                    (case insert_into_cell_unshared s pick column line True of
                       (Some e, s) \<Rightarrow> Some (Inl e)
                     | (None, s) \<Rightarrow> column_loop s treshold line (column + 1) (i + 1) rs)))
      else Some (Inr (s, treshold, column, i, rs)))"

text \<open>The loop over the lines.\<close>

partial_function (option) line_loop ::
  "string list Sudoku \<Rightarrow> string list list \<Rightarrow> int \<Rightarrow> int \<Rightarrow> int \<Rightarrow> nat list
     \<Rightarrow> (error + string list Sudoku \<times> nat list) option" where
  "line_loop s treshold line column i rs =
     (if line < size_s s ^ 2 + 1 then
        (case column_loop s treshold line column i rs of
           None \<Rightarrow> None
         | Some (Inl e) \<Rightarrow> Some (Inl e)
         | Some (Inr (s, treshold, column, i, rs)) \<Rightarrow>
             if column > 0 then line_loop s treshold (line + 1) 1 i rs
             else line_loop s treshold (line - 1) (size_s s ^ 2) i rs)
      else Some (Inr (s, rs)))"

text \<open>
  \<^verbatim>\<open>Sudoku.__init__\<close> on cell contents; the result is the object and what is left of the
  random source.  \<^verbatim>\<open>silent\<close> only switches two \<^verbatim>\<open>print\<close> calls and the two timestamps
  only set \<^verbatim>\<open>gen_duration\<close>; they are left out.
\<close>

definition Sudoku_init ::
  "int \<Rightarrow> grid \<Rightarrow> nat list \<Rightarrow> (error + string list Sudoku \<times> nat list) option" where
  "Sudoku_init size' architecture rs =
     (if length architecture > 0 then Some (Inr (from_architecture architecture, rs))
      else if \<not> (2 \<le> size' \<and> size' < 8) then Some (Inl (IncorrectSize size'))
      else
        let s = \<lparr>size_s = size', sudoku = empty_grid size', chars = alphabet size'\<rparr>;
            treshold = replicate (nat (size' ^ 4)) (chars s)
        in line_loop s treshold 1 1 0 rs)"

section \<open>Well-shaped grids\<close>

text \<open>
  The shape the class documents for \<open>sudoku\<close>: \<open>size\<close> lines of squares, \<open>size\<close> squares
  in each, \<open>size\<close> inner lines in a square, \<open>size\<close> cells in an inner line.
\<close>

definition well_shaped :: "'a list Sudoku \<Rightarrow> bool" where
  "well_shaped s \<longleftrightarrow>
     0 < size_s s \<and> length (sudoku s) = nat (size_s s) \<and>
     (\<forall>sudoku_line \<in> set (sudoku s). length sudoku_line = nat (size_s s) \<and>
       (\<forall>sudoku_square \<in> set sudoku_line. length sudoku_square = nat (size_s s) \<and>
         (\<forall>square_line \<in> set sudoku_square. length square_line = nat (size_s s))))"

text \<open>The cell in line \<open>r\<close> and column \<open>c\<close>, both counted from 0.\<close>

definition cell :: "'a list list list list \<Rightarrow> nat \<Rightarrow> nat \<Rightarrow> nat \<Rightarrow> 'a" where
  "cell g n r c = g ! (r div n) ! (c div n) ! (r mod n) ! (c mod n)"

section \<open>Invariants of the generation loops\<close>

text \<open>
  \<open>filled_before s line column\<close>: every cell before (\<open>line\<close>, \<open>column\<close>) in reading order is
  filled.  \<open>rules_kept\<close>: two different cells of one line, column or square that hold the
  same value are both empty.  \<open>symbols_ok\<close>: a cell is empty or holds a symbol of \<open>chars\<close>,
  and the empty marker is not such a symbol.  \<open>column_post\<close> and \<open>line_post\<close> are what
  holds when the loop over the columns, and over the lines, is left.
\<close>

definition filled_before :: "string list Sudoku \<Rightarrow> int \<Rightarrow> int \<Rightarrow> bool" where
  "filled_before s line column \<longleftrightarrow>
     (let n = nat (size_s s) in
      \<forall>r<n * n. \<forall>c<n * n.
        int r < line - 1 \<or> (int r = line - 1 \<and> int c < column - 1) \<longrightarrow>
        cell (sudoku s) n r c \<noteq> ''#'')"

definition rules_kept :: "string list Sudoku \<Rightarrow> bool" where
  "rules_kept s \<longleftrightarrow>
     (let n = nat (size_s s) in
      \<forall>r<n * n. \<forall>c<n * n. \<forall>r'<n * n. \<forall>c'<n * n.
        (r \<noteq> r' \<or> c \<noteq> c') \<and>
        (r = r' \<or> c = c' \<or> (r div n = r' div n \<and> c div n = c' div n)) \<and>
        cell (sudoku s) n r c = cell (sudoku s) n r' c' \<longrightarrow>
        cell (sudoku s) n r c = ''#'')"

definition symbols_ok :: "string list Sudoku \<Rightarrow> bool" where
  "symbols_ok s \<longleftrightarrow>
     (let n = nat (size_s s) in
      ''#'' \<notin> set (chars s) \<and>
      (\<forall>r<n * n. \<forall>c<n * n.
         cell (sudoku s) n r c = ''#'' \<or> cell (sudoku s) n r c \<in> set (chars s)))"

definition gen_inv :: "string list Sudoku \<Rightarrow> bool" where
  "gen_inv s \<longleftrightarrow> well_shaped s \<and> symbols_ok s \<and> rules_kept s"

definition column_post ::
  "string list Sudoku \<Rightarrow> int
     \<Rightarrow> (error + string list Sudoku \<times> string list list \<times> int \<times> int \<times> nat list) \<Rightarrow> bool" where
  "column_post s line y \<longleftrightarrow>
     (case y of
        Inl e \<Rightarrow> True
      | Inr (s', t', column', i', rs') \<Rightarrow>
          gen_inv s' \<and> filled_before s' line column' \<and> size_s s' = size_s s
          \<and> \<not> (column' < size_s s ^ 2 + 1 \<and> column' > 0))"

definition line_post ::
  "string list Sudoku \<Rightarrow> (error + string list Sudoku \<times> nat list) \<Rightarrow> bool" where
  "line_post s y \<longleftrightarrow>
     (case y of
        Inl e \<Rightarrow> True
      | Inr (s', rs') \<Rightarrow>
          gen_inv s' \<and> size_s s' = size_s s
          \<and> (\<forall>r<nat (size_s s') * nat (size_s s'). \<forall>c<nat (size_s s') * nat (size_s s').
                cell (sudoku s') (nat (size_s s')) r c \<noteq> ''#''))"

section \<open>Copies, the constructor and \<^verbatim>\<open>poke\<close> in a store\<close>

text \<open>
  \<^verbatim>\<open>copy.deepcopy\<close> of a nested list of inner lines.  It is a function of Python's library:
  it goes through the nested list from left to right and builds a new list for every list
  object it meets, with equal strings in it; it keeps a memo of the objects met, so that
  a list met again is not copied again: every reference to it becomes a reference to its
  one copy.  \<open>lines_met\<close> is the list of the inner lines met, each once, in the order
  they are first met; their copies are allocated in that order, and \<open>copy_ref\<close> maps an
  inner line to its copy.
\<close>

definition lines_met :: "nat list list list \<Rightarrow> nat list" where
  "lines_met g = rev (remdups (rev (concat (concat g))))"

definition copy_ref :: "nat list \<Rightarrow> nat \<Rightarrow> nat \<Rightarrow> nat" where
  "copy_ref met base a = base + length (takeWhile (\<lambda>b. b \<noteq> a) met)"

definition deepcopy :: "store \<Rightarrow> nat list list list \<Rightarrow> store \<times> nat list list list" where
  "deepcopy st g =
     (let met = lines_met g
      in (st @ map (\<lambda>a. st ! a) met, map (map (map (copy_ref met (length st)))) g))"

text \<open>
  The lists that the generation branch of the constructor builds, put into the store:
  every inner line is a new list.  \<open>alloc_all\<close> goes through one list level from left to
  right.
\<close>

fun alloc_all :: "(store \<Rightarrow> 'a \<Rightarrow> store \<times> 'b) \<Rightarrow> store \<Rightarrow> 'a list \<Rightarrow> store \<times> 'b list" where
  "alloc_all f st [] = (st, [])"
| "alloc_all f st (x # xs) =
     (case f st x of (st1, y) \<Rightarrow> (case alloc_all f st1 xs of (st2, ys) \<Rightarrow> (st2, y # ys)))"

definition alloc_line :: "store \<Rightarrow> string list \<Rightarrow> store \<times> nat" where
  "alloc_line st cells = (st @ [cells], length st)"

definition alloc_grid :: "store \<Rightarrow> grid \<Rightarrow> store \<times> nat list list list" where
  "alloc_grid st g = alloc_all (alloc_all (alloc_all alloc_line)) st g"

text \<open>
  \<^verbatim>\<open>Sudoku.__init__\<close> in a store.  With an architecture the object takes the given list
  itself (\<^verbatim>\<open>self.sudoku = architecture\<close>): nothing is allocated.  Without one, the grid is
  generated as above and its lists are new.
\<close>

definition st_Sudoku_init ::
  "store \<Rightarrow> int \<Rightarrow> nat list list list \<Rightarrow> nat list
     \<Rightarrow> (error + store \<times> nat Sudoku \<times> nat list) option" where
  "st_Sudoku_init st size' architecture rs =
     (if length architecture > 0 then Some (Inr (st, from_architecture architecture, rs))
      else case Sudoku_init size' [] rs of
             None \<Rightarrow> None
           | Some (Inl e) \<Rightarrow> Some (Inl e)
           | Some (Inr (s, rs)) \<Rightarrow>
               (case alloc_grid st (sudoku s) of
                  (st, g) \<Rightarrow> Some (Inr (st, \<lparr>size_s = size_s s, sudoku = g, chars = chars s\<rparr>, rs))))"

text \<open>
  The \<^verbatim>\<open>while target is None\<close> loop of \<^verbatim>\<open>poke\<close>: four draws choose a cell; a cell that is
  not \<^verbatim>\<open>"#"\<close> is set to \<^verbatim>\<open>"#"\<close> and the loop ends, otherwise it draws again.
\<close>

partial_function (option) poke_while ::
  "store \<Rightarrow> nat list list list \<Rightarrow> nat list \<Rightarrow> (error + store \<times> nat list) option" where
  "poke_while st poked_sudoku rs =
     (case randint 0 (int (length poked_sudoku) - 1) rs of
        None \<Rightarrow> None | Some (Inl e) \<Rightarrow> Some (Inl e) | Some (Inr (k1, rs)) \<Rightarrow>
      case py_get poked_sudoku k1 of Inl e \<Rightarrow> Some (Inl e) | Inr sudoku_line \<Rightarrow>
      case randint 0 (int (length sudoku_line) - 1) rs of
        None \<Rightarrow> None | Some (Inl e) \<Rightarrow> Some (Inl e) | Some (Inr (k2, rs)) \<Rightarrow>
      case py_get sudoku_line k2 of Inl e \<Rightarrow> Some (Inl e) | Inr sudoku_square \<Rightarrow>
      case randint 0 (int (length sudoku_square) - 1) rs of
        None \<Rightarrow> None | Some (Inl e) \<Rightarrow> Some (Inl e) | Some (Inr (k3, rs)) \<Rightarrow>
      case py_get sudoku_square k3 of Inl e \<Rightarrow> Some (Inl e) | Inr square_line \<Rightarrow>
      case randint 0 (int (length (st ! square_line)) - 1) rs of
        None \<Rightarrow> None | Some (Inl e) \<Rightarrow> Some (Inl e) | Some (Inr (target, rs)) \<Rightarrow>
      case py_get (st ! square_line) target of Inl e \<Rightarrow> Some (Inl e) | Inr v \<Rightarrow>
        if v \<noteq> ''#'' then
          (case py_set (st ! square_line) target ''#'' of
             Inl e \<Rightarrow> Some (Inl e)
           | Inr cells \<Rightarrow> Some (Inr (st[square_line := cells], rs)))
        else poke_while st poked_sudoku rs)"

text \<open>\<^verbatim>\<open>for _ in range(amount)\<close>, with the number of rounds still to run.\<close>

fun poke_for ::
  "store \<Rightarrow> nat list list list \<Rightarrow> nat \<Rightarrow> nat list \<Rightarrow> (error + store \<times> nat list) option" where
  "poke_for st poked_sudoku 0 rs = Some (Inr (st, rs))"
| "poke_for st poked_sudoku (Suc k) rs =
     (case poke_while st poked_sudoku rs of
        None \<Rightarrow> None
      | Some (Inl e) \<Rightarrow> Some (Inl e)
      | Some (Inr (st, rs)) \<Rightarrow> poke_for st poked_sudoku k rs)"

text \<open>
  \<^verbatim>\<open>poke\<close>: the new object is built from a deep copy of \<^verbatim>\<open>self.sudoku\<close> (the size argument
  of the constructor is its default, 3), then \<open>amount\<close> cells of it are cleared.  The
  result is the store and the new object.
\<close>

definition poke ::
  "store \<Rightarrow> nat Sudoku \<Rightarrow> int \<Rightarrow> nat list \<Rightarrow> (error + store \<times> nat Sudoku) option" where
  "poke st self amount rs =
     (case deepcopy st (sudoku self) of (st, architecture) \<Rightarrow>
      case st_Sudoku_init st 3 architecture rs of
        None \<Rightarrow> None
      | Some (Inl e) \<Rightarrow> Some (Inl e)
      | Some (Inr (st, new_sudoku, rs)) \<Rightarrow>
          (case poke_for st (sudoku new_sudoku) (nat amount) rs of
             None \<Rightarrow> None
           | Some (Inl e) \<Rightarrow> Some (Inl e)
           | Some (Inr (st, rs)) \<Rightarrow> Some (Inr (st, new_sudoku))))"

text \<open>The number of cells of a grid that hold the empty marker.\<close>

definition empty_cells :: "string list Sudoku \<Rightarrow> nat" where
  "empty_cells s = length (filter (\<lambda>v. v = ''#'') (concat (concat (concat (sudoku s)))))"

section \<open>Solved grids\<close>

text \<open>
  A grid is solved when no cell holds the empty marker and every line, every column and
  every square, read through the accessors, is a permutation of \<open>chars\<close>.
\<close>

definition solved :: "string list Sudoku \<Rightarrow> bool" where
  "solved s \<longleftrightarrow>
     (\<forall>line\<in>{1..size_s s ^ 2}. \<forall>column\<in>{1..size_s s ^ 2}.
        case get_cell s column line of Inl e \<Rightarrow> False | Inr v \<Rightarrow> v \<noteq> ''#'')
     \<and> (\<forall>line\<in>{1..size_s s ^ 2}.
        case get_line_elements s line of Inl e \<Rightarrow> False | Inr xs \<Rightarrow> mset xs = mset (chars s))
     \<and> (\<forall>column\<in>{1..size_s s ^ 2}.
        case get_column_elements s column of Inl e \<Rightarrow> False
        | Inr xs \<Rightarrow> mset xs = mset (chars s))
     \<and> (\<forall>square_column_no\<in>{1..size_s s}. \<forall>square_line_no\<in>{1..size_s s}.
        case get_square_elements s square_column_no square_line_no of Inl e \<Rightarrow> False
        | Inr xs \<Rightarrow> mset xs = mset (chars s))"

section \<open>Sample data\<close>

text \<open>A random source under which the constructor fills a 4 by 4 grid without stepping back.\<close>

definition example_rs :: "nat list" where
  "example_rs = [0, 1, 2, 3, 2, 3, 0, 1, 1, 0, 3, 2, 3, 2, 1, 0]"

definition example_solved :: "string list Sudoku" where
  "example_solved =
     \<lparr>size_s = 2,
      sudoku =
        [[[[''1'', ''2''], [''3'', ''4'']], [[''3'', ''4''], [''1'', ''2'']]],
         [[[''2'', ''1''], [''4'', ''3'']], [[''4'', ''3''], [''2'', ''1'']]]],
      chars = [''1'', ''2'', ''3'', ''4'']\<rparr>"

text \<open>A grid of the same size with one filled cell.\<close>

definition example_partial :: "string list Sudoku" where
  "example_partial =
     \<lparr>size_s = 2,
      sudoku =
        [[[[''1'', ''#''], [''#'', ''#'']], [[''#'', ''#''], [''#'', ''#'']]],
         [[[''#'', ''#''], [''#'', ''#'']], [[''#'', ''#''], [''#'', ''#'']]]],
      chars = [''1'', ''2'', ''3'', ''4'']\<rparr>"

text \<open>The solved grid as an object in a store, its eight inner lines at addresses 0 to 7.\<close>

definition example_store :: store where
  "example_store =
     [[''1'', ''2''], [''3'', ''4''], [''3'', ''4''], [''1'', ''2''],
      [''2'', ''1''], [''4'', ''3''], [''4'', ''3''], [''2'', ''1'']]"

definition example_object :: "nat Sudoku" where
  "example_object =
     \<lparr>size_s = 2, sudoku = [[[0, 1], [2, 3]], [[4, 5], [6, 7]]],
      chars = [''1'', ''2'', ''3'', ''4'']\<rparr>"

text \<open>The grid with one filled cell as the same object in another store.\<close>

definition example_partial_store :: store where
  "example_partial_store =
     [[''1'', ''#''], [''#'', ''#''], [''#'', ''#''], [''#'', ''#''],
      [''#'', ''#''], [''#'', ''#''], [''#'', ''#''], [''#'', ''#'']]"

text \<open>
  An object all inner lines of which are one list, as \<^verbatim>\<open>row = ["#", "#"]\<close>,
  \<^verbatim>\<open>Sudoku(architecture=[[[row, row], [row, row]], [[row, row], [row, row]]])\<close> builds it.
\<close>

definition shared_store :: store where
  "shared_store = [[''#'', ''#'']]"

definition shared_object :: "nat Sudoku" where
  "shared_object =
     \<lparr>size_s = 2, sudoku = [[[0, 0], [0, 0]], [[0, 0], [0, 0]]],
      chars = [''1'', ''2'', ''3'', ''4'']\<rparr>"

declare draw_loop.simps [code] column_loop.simps [code] line_loop.simps [code]
  poke_while.simps [code]

section \<open>Properties of the alphabet and of the fields\<close>

lemma length_AVAILABLE_CHARS: "length AVAILABLE_CHARS = 64"
  by (simp add: AVAILABLE_CHARS_def)

lemma distinct_AVAILABLE_CHARS: "distinct AVAILABLE_CHARS"
  by (simp add: AVAILABLE_CHARS_def)

lemma length1_AVAILABLE_CHARS: "c \<in> set AVAILABLE_CHARS \<Longrightarrow> length c = 1"
  by (auto simp: AVAILABLE_CHARS_def)

lemma hash_notin_AVAILABLE_CHARS: "''#'' \<notin> set AVAILABLE_CHARS"
  by (simp add: AVAILABLE_CHARS_def)

lemma distinct_alphabet: "distinct (alphabet n)"
  by (simp add: alphabet_def distinct_AVAILABLE_CHARS)

lemma length_alphabet: "0 \<le> n \<Longrightarrow> n \<le> 8 \<Longrightarrow> length (alphabet n) = nat (n * n)"
proof -
  assume "0 \<le> n" "n \<le> 8"
  then have "n * n \<le> 8 * 8" by (intro mult_mono) auto
  then show ?thesis by (simp add: alphabet_def length_AVAILABLE_CHARS)
qed

lemma insert_into_cell_fields:
  "insert_into_cell_unshared s char column line no_check = (r, s') \<Longrightarrow>
   size_s s' = size_s s \<and> chars s' = chars s"
  by (auto simp: insert_into_cell_unshared_def split: sum.splits if_splits bool.splits)

lemma column_loop_fields:
  assumes "column_loop s treshold line column i rs = Some y"
  shows "\<forall>s' rest. y = Inr (s', rest) \<longrightarrow> size_s s' = size_s s \<and> chars s' = chars s"
proof (rule column_loop.raw_induct[where P = "\<lambda>s treshold line column i rs y.
      \<forall>s' rest. y = Inr (s', rest) \<longrightarrow> size_s s' = size_s s \<and> chars s' = chars s", OF _ assms],
      goal_cases)
  case (1 f s treshold line column i rs y)
  show ?case
  proof (intro allI impI)
    fix s' rest assume y: "y = Inr (s', rest)"
    show "size_s s' = size_s s \<and> chars s' = chars s"
      using 1(2) unfolding y
      by (auto split: if_splits option.splits sum.splits prod.splits
          dest!: 1(1)[rule_format] insert_into_cell_fields)
  qed
qed

lemma line_loop_fields:
  assumes "line_loop s treshold line column i rs = Some y"
  shows "\<forall>s' rs'. y = Inr (s', rs') \<longrightarrow> size_s s' = size_s s \<and> chars s' = chars s"
proof (rule line_loop.raw_induct[where P = "\<lambda>s treshold line column i rs y.
      \<forall>s' rs'. y = Inr (s', rs') \<longrightarrow> size_s s' = size_s s \<and> chars s' = chars s", OF _ assms],
      goal_cases)
  case (1 f s treshold line column i rs y)
  show ?case
  proof (intro allI impI)
    fix s' rs' assume y: "y = Inr (s', rs')"
    show "size_s s' = size_s s \<and> chars s' = chars s"
      using 1(2) unfolding y
      by (auto split: if_splits option.splits sum.splits prod.splits
          dest!: 1(1)[rule_format] column_loop_fields[rule_format])
  qed
qed

lemma Sudoku_init_fields:
  assumes "Sudoku_init size' architecture rs = Some (Inr (s, rs'))"
  shows "chars s = alphabet (size_s s) \<and> 0 < size_s s
         \<and> (architecture = [] \<longrightarrow> size_s s = size' \<and> 2 \<le> size' \<and> size' \<le> 7)"
proof (cases "length architecture > 0")
  case True
  with assms show ?thesis by (auto simp: Sudoku_init_def from_architecture_def)
next
  case False
  with assms have rng: "2 \<le> size'" "size' < 8"
    and run: "line_loop \<lparr>size_s = size', sudoku = empty_grid size', chars = alphabet size'\<rparr>
                (replicate (nat (size' ^ 4)) (alphabet size')) 1 1 0 rs = Some (Inr (s, rs'))"
    by (auto simp: Sudoku_init_def Let_def split: if_splits)
  from line_loop_fields[OF run] rng show ?thesis by auto
qed

lemma example_run: "Sudoku_init 2 [] example_rs = Some (Inr (example_solved, []))"
  by code_simp

section \<open>Accessors and writes on well-shaped grids\<close>

lemma py_index_nat: "i < length xs \<Longrightarrow> py_index xs (int i) = Some i"
  by (simp add: py_index_def)

lemma py_get_nat: "i < length xs \<Longrightarrow> py_get xs (int i) = Inr (xs ! i)"
  by (simp add: py_get_def py_index_nat)

lemma py_set_nat: "i < length xs \<Longrightarrow> py_set xs (int i) v = Inr (xs[i := v])"
  by (simp add: py_set_def py_index_nat)

lemma length_concat_uniform:
  "\<forall>xs\<in>set xss. length xs = n \<Longrightarrow> length (concat xss) = length xss * n"
  by (induction xss) auto

lemma nth_concat_uniform:
  "\<forall>xs\<in>set xss. length xs = n \<Longrightarrow> j < length xss * n \<Longrightarrow>
   concat xss ! j = xss ! (j div n) ! (j mod n)"
proof (induction xss arbitrary: j)
  case Nil
  then show ?case by simp
next
  case (Cons x xss)
  show ?case
  proof (cases "j < n")
    case True
    with Cons.prems show ?thesis by (simp add: nth_append)
  next
    case False
    then have jn: "n \<le> j" by simp
    from Cons.prems False have "j - n < length xss * n" by auto
    with Cons have "concat xss ! (j - n) = xss ! ((j - n) div n) ! ((j - n) mod n)"
      by auto
    moreover from False Cons.prems have "0 < n" by (cases n) auto
    ultimately show ?thesis
      using Cons.prems jn False
      by (simp add: nth_append le_div_geq le_mod_geq)
  qed
qed

lemma concat_uniform:
  assumes "\<forall>xs\<in>set xss. length xs = n"
  shows "concat xss = map (\<lambda>j. xss ! (j div n) ! (j mod n)) [0..<length xss * n]"
  by (rule nth_equalityI)
    (simp_all add: length_concat_uniform[OF assms] nth_concat_uniform[OF assms])

lemma line_squares_eq:
  "\<forall>sq\<in>set sl. k < length sq \<Longrightarrow>
   line_squares sl (int k) acc = Inr (acc @ concat (map (\<lambda>sq. sq ! k) sl))"
  by (induction sl arbitrary: acc) (auto simp: bind_err_def py_get_nat)

lemma column_cells_eq:
  "\<forall>row\<in>set sq. k < length row \<Longrightarrow>
   column_cells sq (int k) acc = Inr (acc @ map (\<lambda>row. row ! k) sq)"
  by (induction sq arbitrary: acc) (auto simp: bind_err_def py_get_nat)

lemma column_lines_eq:
  "\<forall>sl\<in>set g. q < length sl \<and> (\<forall>row\<in>set (sl ! q). k < length row) \<Longrightarrow>
   column_lines g (int q) (int k) acc
     = Inr (acc @ concat (map (\<lambda>sl. map (\<lambda>row. row ! k) (sl ! q)) g))"
  by (induction g arbitrary: acc) (auto simp: bind_err_def py_get_nat column_cells_eq)

lemma well_shapedD:
  assumes "well_shaped s" and "n = nat (size_s s)"
  shows "0 < n" "size_s s = int n" "length (sudoku s) = n"
    "\<And>a. a < n \<Longrightarrow> length (sudoku s ! a) = n"
    "\<And>a b. a < n \<Longrightarrow> b < n \<Longrightarrow> length (sudoku s ! a ! b) = n"
    "\<And>a b c. a < n \<Longrightarrow> b < n \<Longrightarrow> c < n \<Longrightarrow> length (sudoku s ! a ! b ! c) = n"
  using assms unfolding well_shaped_def by (auto simp: all_set_conv_all_nth)

lemma div_less_square: "r < n * n \<Longrightarrow> r div n < (n::nat)"
  by (simp add: less_mult_imp_div_less)

lemma mod_less_square: "r < n * n \<Longrightarrow> r mod n < (n::nat)"
  by (cases n) auto

lemma int_less_square: "r < n * n \<Longrightarrow> int r < int n * int n"
  by (metis of_nat_less_iff of_nat_mult)

lemma get_cell_eq:
  assumes ws: "well_shaped s" and n: "n = nat (size_s s)" and r: "r < n * n" and c: "c < n * n"
  shows "get_cell s (int c + 1) (int r + 1) = Inr (cell (sudoku s) n r c)"
proof -
  note D = well_shapedD[OF ws n]
  have sq: "size_s s ^ 2 = int (n * n)" by (simp add: D(2) power2_eq_square)
  have dm: "int r div int n = int (r div n)" "int r mod int n = int (r mod n)"
    "int c div int n = int (c div n)" "int c mod int n = int (c mod n)"
    by (simp_all add: zdiv_int zmod_int)
  show ?thesis
    using r c D(1)
    by (simp add: get_cell_def Let_def power2_eq_square int_less_square in_range_def sq D(2) dm bind_err_def py_get_nat D(3-)
        div_less_square mod_less_square cell_def)
qed

lemma get_line_elements_eq:
  assumes ws: "well_shaped s" and n: "n = nat (size_s s)" and r: "r < n * n"
  shows "get_line_elements s (int r + 1) = Inr (map (\<lambda>c. cell (sudoku s) n r c) [0..<n * n])"
proof -
  note D = well_shapedD[OF ws n]
  have sq: "size_s s ^ 2 = int (n * n)" by (simp add: D(2) power2_eq_square)
  have dm: "int r div int n = int (r div n)" "int r mod int n = int (r mod n)"
    by (simp_all add: zdiv_int zmod_int)
  let ?sl = "sudoku s ! (r div n)"
  have a: "r div n < n" and k: "r mod n < n" using r by (simp_all add: div_less_square mod_less_square)
  have len: "\<forall>sq\<in>set ?sl. r mod n < length sq"
    using D(5)[OF a] D(4)[OF a] k by (auto simp: in_set_conv_nth)
  have un: "\<forall>xs\<in>set (map (\<lambda>sq. sq ! (r mod n)) ?sl). length xs = n"
    using D(6)[OF a _ k] D(4)[OF a] by (auto simp: in_set_conv_nth)
  have "get_line_elements s (int r + 1) = Inr (concat (map (\<lambda>sq. sq ! (r mod n)) ?sl))"
    using r a by (simp add: get_line_elements_def Let_def power2_eq_square int_less_square in_range_def sq D(2) dm bind_err_def
        py_get_nat D(3) line_squares_eq[OF len])
  also have "concat (map (\<lambda>sq. sq ! (r mod n)) ?sl)
      = map (\<lambda>c. cell (sudoku s) n r c) [0..<n * n]"
    unfolding concat_uniform[OF un]
    using D(4)[OF a] by (auto simp: cell_def div_less_square)
  finally show ?thesis .
qed

lemma get_column_elements_eq:
  assumes ws: "well_shaped s" and n: "n = nat (size_s s)" and c: "c < n * n"
  shows "get_column_elements s (int c + 1) = Inr (map (\<lambda>r. cell (sudoku s) n r c) [0..<n * n])"
proof -
  note D = well_shapedD[OF ws n]
  have sq: "size_s s ^ 2 = int (n * n)" by (simp add: D(2) power2_eq_square)
  have dm: "int c div int n = int (c div n)" "int c mod int n = int (c mod n)"
    by (simp_all add: zdiv_int zmod_int)
  have q: "c div n < n" and k: "c mod n < n" using c by (simp_all add: div_less_square mod_less_square)
  have len: "\<forall>sl\<in>set (sudoku s). c div n < length sl \<and> (\<forall>row\<in>set (sl ! (c div n)). c mod n < length row)"
    using q k by (auto simp: in_set_conv_nth D(3-))
  let ?f = "\<lambda>sl. map (\<lambda>row. row ! (c mod n)) (sl ! (c div n))"
  have un: "\<forall>xs\<in>set (map ?f (sudoku s)). length xs = n"
    using q by (auto simp: in_set_conv_nth D(3-))
  have "get_column_elements s (int c + 1) = Inr (concat (map ?f (sudoku s)))"
    using c by (simp add: get_column_elements_def Let_def power2_eq_square int_less_square in_range_def sq D(2) dm column_lines_eq[OF len])
  also have "concat (map ?f (sudoku s)) = map (\<lambda>r. cell (sudoku s) n r c) [0..<n * n]"
    unfolding concat_uniform[OF un]
    using q by (auto simp: cell_def div_less_square mod_less_square D(3-))
  finally show ?thesis .
qed

lemma get_square_elements_eq:
  assumes ws: "well_shaped s" and n: "n = nat (size_s s)" and a: "a < n" and b: "b < n"
  shows "get_square_elements s (int b + 1) (int a + 1)
    = Inr (map (\<lambda>j. cell (sudoku s) n (a * n + j div n) (b * n + j mod n)) [0..<n * n])"
proof -
  note D = well_shapedD[OF ws n]
  have un: "\<forall>xs\<in>set (sudoku s ! a ! b). length xs = n"
    using D(6)[OF a b] D(5)[OF a b] by (auto simp: in_set_conv_nth)
  have "get_square_elements s (int b + 1) (int a + 1) = Inr (concat (sudoku s ! a ! b))"
    using a b by (simp add: get_square_elements_def Let_def power2_eq_square int_less_square in_range_def D(2) bind_err_def py_get_nat D(3-))
  also have "concat (sudoku s ! a ! b)
     = map (\<lambda>j. cell (sudoku s) n (a * n + j div n) (b * n + j mod n)) [0..<n * n]"
    unfolding concat_uniform[OF un]
    using D(5)[OF a b] D(1) a b by (auto simp: cell_def div_less_square mod_less_square)
  finally show ?thesis .
qed

lemma py_get_resolved: "py_index xs i = Some j \<Longrightarrow> py_get xs i = Inr (xs ! j)"
  by (simp add: py_get_def)

lemma py_set_resolved: "py_index xs i = Some j \<Longrightarrow> py_set xs i v = Inr (xs[j := v])"
  by (simp add: py_set_def)

lemma py_index_less: "py_index xs i = Some j \<Longrightarrow> j < length xs"
  by (auto simp: py_index_def Let_def split: if_splits)

lemma py_index_minus_one: "xs \<noteq> [] \<Longrightarrow> py_index xs (- 1) = Some (length xs - 1)"
  by (cases xs) (auto simp: py_index_def Let_def)

lemma set_cell_resolved:
  assumes "py_index g a = Some a'" "py_index (g ! a') b = Some b'"
    "py_index (g ! a' ! b') c = Some c'" "py_index (g ! a' ! b' ! c') d = Some d'"
  shows "set_cell_unshared g a b c d char
    = Inr (g[a' := (g ! a')[b' := (g ! a' ! b')[c' := (g ! a' ! b' ! c')[d' := char]]]])"
  using assms by (simp add: set_cell_unshared_def bind_err_def py_get_resolved py_set_resolved)

lemma divmod_eq_iff:
  fixes n :: nat
  assumes "0 < n"
  shows "(r' div n = r div n \<and> r' mod n = r mod n) \<longleftrightarrow> r' = r"
  by (metis div_mult_mod_eq)

lemma cell_update:
  fixes g :: "'a list list list list"
  assumes n: "0 < n" and len: "length g = n" "\<forall>a<n. length (g ! a) = n"
    "\<forall>a<n. \<forall>b<n. length (g ! a ! b) = n" "\<forall>a<n. \<forall>b<n. \<forall>c<n. length (g ! a ! b ! c) = n"
    and r: "r < n * n" and c: "c < n * n" and r': "r' < n * n" and c': "c' < n * n"
  shows "cell (g[r div n := (g ! (r div n))[c div n := (g ! (r div n) ! (c div n))[r mod n :=
            (g ! (r div n) ! (c div n) ! (r mod n))[c mod n := v]]]]) n r' c'
         = (if r' = r \<and> c' = c then v else cell g n r' c')"
proof -
  have b: "r div n < n" "c div n < n" "r mod n < n" "c mod n < n"
    "r' div n < n" "c' div n < n" "r' mod n < n" "c' mod n < n"
    using r c r' c' n by (simp_all add: div_less_square)
  show ?thesis
  proof (cases "r' = r \<and> c' = c")
    case True
    then show ?thesis using b len by (simp add: cell_def)
  next
    case False
    then have "\<not> (r' div n = r div n \<and> r' mod n = r mod n \<and> c' div n = c div n \<and> c' mod n = c mod n)"
      using divmod_eq_iff[OF n] by metis
    then show ?thesis using False b len
      by (auto simp: cell_def nth_list_update)
  qed
qed

lemma ball_set_update:
  "\<forall>x\<in>set xs. P x \<Longrightarrow> P y \<Longrightarrow> \<forall>x\<in>set (xs[i := y]). P x"
  using set_update_subset_insert[of xs i y] by auto

lemma well_shaped_update:
  assumes ws: "well_shaped s" and n: "n = nat (size_s s)"
    and b: "a < n" "b < n" "c < n" "d < n"
  shows "well_shaped (s\<lparr>sudoku := (sudoku s)[a := (sudoku s ! a)[b := (sudoku s ! a ! b)[c :=
            (sudoku s ! a ! b ! c)[d := v]]]]\<rparr>)"
proof -
  note D = well_shapedD[OF ws n]
  let ?P3 = "\<lambda>row :: 'a list. length row = n"
  let ?P2 = "\<lambda>sq :: 'a list list. length sq = n \<and> (\<forall>row\<in>set sq. ?P3 row)"
  let ?P1 = "\<lambda>sl :: 'a list list list. length sl = n \<and> (\<forall>sq\<in>set sl. ?P2 sq)"
  have all1: "\<forall>sl\<in>set (sudoku s). ?P1 sl"
    using ws by (simp add: well_shaped_def n)
  have "sudoku s ! a \<in> set (sudoku s)" using b(1) D(3) by simp
  with all1 have sl: "?P1 (sudoku s ! a)" by blast
  then have "sudoku s ! a ! b \<in> set (sudoku s ! a)" using b(2) by simp
  with sl have sq: "?P2 (sudoku s ! a ! b)" by blast
  then have "sudoku s ! a ! b ! c \<in> set (sudoku s ! a ! b)" using b(3) by simp
  with sq have row: "?P3 (sudoku s ! a ! b ! c)" by blast
  have row': "?P3 ((sudoku s ! a ! b ! c)[d := v])" using row by simp
  from sq have "\<forall>row\<in>set (sudoku s ! a ! b). ?P3 row" by blast
  from ball_set_update[of _ ?P3, OF this row']
  have sq': "?P2 ((sudoku s ! a ! b)[c := (sudoku s ! a ! b ! c)[d := v]])"
    using sq by simp
  from sl have "\<forall>sq\<in>set (sudoku s ! a). ?P2 sq" by blast
  from ball_set_update[of _ ?P2, OF this sq']
  have sl': "?P1 ((sudoku s ! a)[b := (sudoku s ! a ! b)[c := (sudoku s ! a ! b ! c)[d := v]]])"
    using sl by simp
  have "\<forall>x\<in>set ((sudoku s)[a := (sudoku s ! a)[b := (sudoku s ! a ! b)[c :=
            (sudoku s ! a ! b ! c)[d := v]]]]). ?P1 x"
    by (rule ball_set_update[OF all1 sl'])
  then show ?thesis
    using D(1) D(3) by (simp add: well_shaped_def D(2))
qed

lemma insert_unchecked:
  assumes ws: "well_shaped s" and n: "n = nat (size_s s)" and r: "r < n * n" and c: "c < n * n"
  shows "\<exists>s'. insert_into_cell_unshared s char (int c + 1) (int r + 1) True = (None, s')
     \<and> size_s s' = size_s s \<and> chars s' = chars s \<and> well_shaped s'
     \<and> (\<forall>r'<n * n. \<forall>c'<n * n.
           cell (sudoku s') n r' c' = (if r' = r \<and> c' = c then char else cell (sudoku s) n r' c'))"
proof -
  note D = well_shapedD[OF ws n]
  let ?g = "sudoku s"
  let ?g' = "?g[r div n := (?g ! (r div n))[c div n := (?g ! (r div n) ! (c div n))[r mod n :=
            (?g ! (r div n) ! (c div n) ! (r mod n))[c mod n := char]]]]"
  have b: "r div n < n" "c div n < n" "r mod n < n" "c mod n < n"
    using r c D(1) by (simp_all add: div_less_square)
  have dm: "int r div int n = int (r div n)" "int r mod int n = int (r mod n)"
    "int c div int n = int (c div n)" "int c mod int n = int (c mod n)"
    by (simp_all add: zdiv_int zmod_int)
  have sc: "set_cell_unshared ?g (int (r div n)) (int (c div n)) (int (r mod n)) (int (c mod n)) char = Inr ?g'"
    by (rule set_cell_resolved) (simp_all add: py_index_nat b D(3-))
  have ins: "insert_into_cell_unshared s char (int c + 1) (int r + 1) True = (None, s\<lparr>sudoku := ?g'\<rparr>)"
    using D(1) by (simp add: insert_into_cell_unshared_def D(2) dm sc)
  have ws': "well_shaped (s\<lparr>sudoku := ?g'\<rparr>)"
    by (rule well_shaped_update[OF ws n b])
  have cells: "\<forall>r'<n * n. \<forall>c'<n * n.
           cell ?g' n r' c' = (if r' = r \<and> c' = c then char else cell ?g n r' c')"
    using cell_update[OF D(1) D(3), of r c _ _ char] D(4-) r c by auto
  show ?thesis using ins ws' cells by auto
qed

lemma coordE:
  assumes ws: "well_shaped s" and n: "n = nat (size_s s)"
    and x: "1 \<le> x" "x \<le> size_s s ^ 2"
  obtains c where "x = int c + 1" "c < n * n"
proof -
  note D = well_shapedD[OF ws n]
  have "x = int (nat (x - 1)) + 1" using x by simp
  moreover have "nat (x - 1) < n * n"
    using x by (simp add: D(2) power2_eq_square nat_less_iff)
  ultimately show ?thesis using that by blast
qed

lemma box_position:
  fixes n :: nat
  assumes "a < n" "j < n * n"
  shows "a * n + j div n < n * n" "(a * n + j div n) div n = a" "(a * n + j div n) mod n = j div n"
proof -
  have jd: "j div n < n" using assms(2) by (simp add: div_less_square)
  have "a * n + j div n < a * n + n" using jd by simp
  also have "\<dots> = (a + 1) * n" by simp
  also have "\<dots> \<le> n * n" using assms(1) by (metis Suc_eq_plus1 Suc_leI mult_le_mono1)
  finally show "a * n + j div n < n * n" .
  show "(a * n + j div n) div n = a" using jd by simp
  show "(a * n + j div n) mod n = j div n" using jd by simp
qed

lemma box_position2:
  fixes n :: nat
  assumes "b < n" "0 < n"
  shows "b * n + j mod n < n * n" "(b * n + j mod n) div n = b" "(b * n + j mod n) mod n = j mod n"
proof -
  have jd: "j mod n < n" using assms(2) by simp
  have "b * n + j mod n < b * n + n" using jd by simp
  also have "\<dots> = (b + 1) * n" by simp
  also have "\<dots> \<le> n * n" using assms(1) by (metis Suc_eq_plus1 Suc_leI mult_le_mono1)
  finally show "b * n + j mod n < n * n" .
  show "(b * n + j mod n) div n = b" using jd by simp
  show "(b * n + j mod n) mod n = j mod n" using jd by simp
qed

lemma box_values:
  fixes n :: nat
  assumes n: "0 < n" and a: "a < n" and b: "b < n"
  shows "set (map (\<lambda>j. cell g n (a * n + j div n) (b * n + j mod n)) [0..<n * n])
    = {cell g n r' c' | r' c'. r' < n * n \<and> c' < n * n \<and> r' div n = a \<and> c' div n = b}"
    (is "?L = ?R")
proof
  show "?L \<subseteq> ?R"
    using box_position[OF a] box_position2[OF b n] by auto blast
  show "?R \<subseteq> ?L"
  proof
    fix v assume "v \<in> ?R"
    then obtain r' c' where v: "v = cell g n r' c'" and r': "r' < n * n" and c': "c' < n * n"
      and d: "r' div n = a" "c' div n = b" by blast
    let ?j = "(r' mod n) * n + c' mod n"
    have jm: "r' mod n < n" "c' mod n < n" using n by simp_all
    have "(r' mod n) * n + c' mod n < (r' mod n) * n + n" using jm by simp
    also have "\<dots> = (r' mod n + 1) * n" by simp
    also have "\<dots> \<le> n * n" using jm(1) by (metis Suc_eq_plus1 Suc_leI mult_le_mono1)
    finally have j: "?j < n * n" .
    have "?j div n = r' mod n" "?j mod n = c' mod n" using jm by simp_all
    moreover have "a * n + r' mod n = r'" "b * n + c' mod n = c'"
      using d by (metis div_mult_mod_eq)+
    ultimately have "cell g n (a * n + ?j div n) (b * n + ?j mod n) = v"
      using v by simp
    with j show "v \<in> ?L" by (metis (no_types, lifting) atLeastLessThan_iff image_eqI le0 set_map set_upt)
  qed
qed

lemma is_violating_eq:
  assumes ws: "well_shaped s" and n: "n = nat (size_s s)" and r: "r < n * n" and c: "c < n * n"
    and ch: "length char = 1" "char \<in> set (chars s)"
  shows "is_violating s char (int c + 1) (int r + 1)
    = Inr ((\<exists>c'<n * n. cell (sudoku s) n r c' = char)
         \<or> (\<exists>r'<n * n. cell (sudoku s) n r' c = char)
         \<or> (\<exists>r'<n * n. \<exists>c'<n * n. r' div n = r div n \<and> c' div n = c div n
               \<and> cell (sudoku s) n r' c' = char))"
proof -
  note D = well_shapedD[OF ws n]
  have b: "r div n < n" "c div n < n" using r c by (simp_all add: div_less_square)
  have dm: "int r div int n = int (r div n)" "int c div int n = int (c div n)"
    by (simp_all add: zdiv_int)
  have sq: "get_square_elements s (int c div int n + 1) (int r div int n + 1)
     = Inr (map (\<lambda>j. cell (sudoku s) n (r div n * n + j div n) (c div n * n + j mod n)) [0..<n * n])"
    unfolding dm by (rule get_square_elements_eq[OF ws n b])
  have 1: "char \<in> set (map (\<lambda>c. cell (sudoku s) n r c) [0..<n * n])
     \<longleftrightarrow> (\<exists>c'<n * n. cell (sudoku s) n r c' = char)" by auto
  have 2: "char \<in> set (map (\<lambda>r. cell (sudoku s) n r c) [0..<n * n])
     \<longleftrightarrow> (\<exists>r'<n * n. cell (sudoku s) n r' c = char)" by auto
  have 3: "char \<in> set (map (\<lambda>j. cell (sudoku s) n (r div n * n + j div n) (c div n * n + j mod n)) [0..<n * n])
     \<longleftrightarrow> (\<exists>r'<n * n. \<exists>c'<n * n. r' div n = r div n \<and> c' div n = c div n
               \<and> cell (sudoku s) n r' c' = char)"
    unfolding box_values[OF D(1) b] by auto
  show ?thesis
    unfolding is_violating_def
    using ch
    by (simp only: get_line_elements_eq[OF ws n r] get_column_elements_eq[OF ws n c]
        add_diff_cancel_right' D(2) sq bind_err_def sum.case 1 2 3 if_False not_not
        refl if_True) simp
qed

lemma accessor_range:
  "get_line_elements s line = Inr xs \<Longrightarrow> 1 \<le> line \<and> line \<le> size_s s ^ 2"
  "get_column_elements s column = Inr ys \<Longrightarrow> 1 \<le> column \<and> column \<le> size_s s ^ 2"
  by (auto simp: get_line_elements_def get_column_elements_def Let_def in_range_def
      split: if_splits)

lemma is_violating_InrD:
  assumes "is_violating s char column line = Inr v"
  shows "length char = 1" "char \<in> set (chars s)"
    "1 \<le> line" "line \<le> size_s s ^ 2" "1 \<le> column" "column \<le> size_s s ^ 2"
  using assms accessor_range[of s line] accessor_range(2)[of s column]
  by (auto simp: is_violating_def bind_err_def split: if_splits sum.splits)

lemma filled_beforeD:
  "filled_before s line column \<Longrightarrow> n = nat (size_s s) \<Longrightarrow> r < n * n \<Longrightarrow> c < n * n \<Longrightarrow>
   int r < line - 1 \<or> (int r = line - 1 \<and> int c < column - 1) \<Longrightarrow>
   cell (sudoku s) n r c \<noteq> ''#''"
  unfolding filled_before_def Let_def by blast

lemma commit_step:
  assumes inv: "gen_inv s" and fb: "filled_before s line column"
    and nv: "is_violating s pick column line = Inr False"
    and ins: "insert_into_cell_unshared s pick column line True = (None, s')"
  shows "gen_inv s' \<and> filled_before s' line (column + 1)"
proof -
  define n where "n = nat (size_s s)"
  from inv have ws: "well_shaped s" and so: "symbols_ok s" and rk: "rules_kept s"
    by (simp_all add: gen_inv_def)
  note V = is_violating_InrD[OF nv]
  from coordE[OF ws n_def V(5,6)] obtain c where c: "column = int c + 1" "c < n * n" .
  from coordE[OF ws n_def V(3,4)] obtain r where r: "line = int r + 1" "r < n * n" .
  from is_violating_eq[OF ws n_def r(2) c(2) V(1,2)] nv
  have free: "\<forall>c'<n * n. cell (sudoku s) n r c' \<noteq> pick"
    "\<forall>r'<n * n. cell (sudoku s) n r' c \<noteq> pick"
    "\<forall>r'<n * n. \<forall>c'<n * n. r' div n = r div n \<and> c' div n = c div n
        \<longrightarrow> cell (sudoku s) n r' c' \<noteq> pick"
    unfolding c r by auto
  from insert_unchecked[OF ws n_def r(2) c(2), of pick] ins
  have sz: "size_s s' = size_s s" and chs: "chars s' = chars s" and ws': "well_shaped s'"
    and cells: "\<And>r' c'. r' < n * n \<Longrightarrow> c' < n * n \<Longrightarrow>
       cell (sudoku s') n r' c' = (if r' = r \<and> c' = c then pick else cell (sudoku s) n r' c')"
    unfolding c r by auto
  have n': "nat (size_s s') = n" by (simp add: sz n_def)
  have hash: "''#'' \<notin> set (chars s)" using so by (simp add: symbols_ok_def Let_def)
  have pick_ne: "pick \<noteq> ''#''" using V(2) hash by auto
  have so': "symbols_ok s'"
    using so V(2) by (auto simp: symbols_ok_def Let_def n' chs cells n_def[symmetric])
  have rk': "rules_kept s'"
    unfolding rules_kept_def Let_def n'
  proof (intro allI impI)
    fix r1 c1 r2 c2
    assume b: "r1 < n * n" "c1 < n * n" "r2 < n * n" "c2 < n * n"
      and h: "(r1 \<noteq> r2 \<or> c1 \<noteq> c2) \<and>
        (r1 = r2 \<or> c1 = c2 \<or> (r1 div n = r2 div n \<and> c1 div n = c2 div n)) \<and>
        cell (sudoku s') n r1 c1 = cell (sudoku s') n r2 c2"
    show "cell (sudoku s') n r1 c1 = ''#''"
    proof (cases "(r1 = r \<and> c1 = c) \<or> (r2 = r \<and> c2 = c)")
      case True
      then show ?thesis
        using h b free by (auto simp: cells split: if_splits) metis+
    next
      case False
      then have e: "cell (sudoku s') n r1 c1 = cell (sudoku s) n r1 c1"
        "cell (sudoku s') n r2 c2 = cell (sudoku s) n r2 c2"
        using b by (auto simp: cells)
      have "cell (sudoku s) n r1 c1 = ''#''"
        by (rule rk[unfolded rules_kept_def Let_def n_def[symmetric], rule_format, of r1 c1 r2 c2])
          (use h b e in auto)
      then show ?thesis by (simp add: e)
    qed
  qed
  have fb': "filled_before s' line (column + 1)"
    unfolding filled_before_def Let_def n'
  proof (intro allI impI)
    fix r1 c1 assume b: "r1 < n * n" "c1 < n * n"
      and h: "int r1 < line - 1 \<or> (int r1 = line - 1 \<and> int c1 < column + 1 - 1)"
    show "cell (sudoku s') n r1 c1 \<noteq> ''#''"
    proof (cases "r1 = r \<and> c1 = c")
      case True
      then show ?thesis using b pick_ne by (simp add: cells)
    next
      case False
      with h have "int r1 < line - 1 \<or> (int r1 = line - 1 \<and> int c1 < column - 1)"
        unfolding c r by auto
      with fb b have "cell (sudoku s) n r1 c1 \<noteq> ''#''"
        using filled_beforeD[OF fb n_def] by blast
      with False b show ?thesis by (auto simp: cells)
    qed
  qed
  show ?thesis using ws' so' rk' fb' by (simp add: gen_inv_def)
qed

lemma backtrack_step:
  assumes inv: "gen_inv s" and fb: "filled_before s line column"
    and v: "is_violating s pick column line = Inr True"
    and ins: "insert_into_cell_unshared s ''#'' column line True = (None, s')"
  shows "gen_inv s' \<and> filled_before s' line (column - 1)"
proof -
  define n where "n = nat (size_s s)"
  from inv have ws: "well_shaped s" and so: "symbols_ok s" and rk: "rules_kept s"
    by (simp_all add: gen_inv_def)
  note V = is_violating_InrD[OF v]
  from coordE[OF ws n_def V(5,6)] obtain c where c: "column = int c + 1" "c < n * n" .
  from coordE[OF ws n_def V(3,4)] obtain r where r: "line = int r + 1" "r < n * n" .
  from insert_unchecked[OF ws n_def r(2) c(2), of "''#''"] ins
  have sz: "size_s s' = size_s s" and chs: "chars s' = chars s" and ws': "well_shaped s'"
    and cells: "\<And>r' c'. r' < n * n \<Longrightarrow> c' < n * n \<Longrightarrow>
       cell (sudoku s') n r' c' = (if r' = r \<and> c' = c then ''#'' else cell (sudoku s) n r' c')"
    unfolding c r by auto
  have n': "nat (size_s s') = n" by (simp add: sz n_def)
  have so': "symbols_ok s'"
    using so by (auto simp: symbols_ok_def Let_def n' chs cells n_def[symmetric])
  have rk': "rules_kept s'"
    unfolding rules_kept_def Let_def n'
  proof (intro allI impI)
    fix r1 c1 r2 c2
    assume b: "r1 < n * n" "c1 < n * n" "r2 < n * n" "c2 < n * n"
      and h: "(r1 \<noteq> r2 \<or> c1 \<noteq> c2) \<and>
        (r1 = r2 \<or> c1 = c2 \<or> (r1 div n = r2 div n \<and> c1 div n = c2 div n)) \<and>
        cell (sudoku s') n r1 c1 = cell (sudoku s') n r2 c2"
    show "cell (sudoku s') n r1 c1 = ''#''"
    proof (cases "(r1 = r \<and> c1 = c) \<or> (r2 = r \<and> c2 = c)")
      case True
      then show ?thesis
        using h b by (auto simp: cells split: if_splits)
    next
      case False
      then have e: "cell (sudoku s') n r1 c1 = cell (sudoku s) n r1 c1"
        "cell (sudoku s') n r2 c2 = cell (sudoku s) n r2 c2"
        using b by (auto simp: cells)
      have "cell (sudoku s) n r1 c1 = ''#''"
        by (rule rk[unfolded rules_kept_def Let_def n_def[symmetric], rule_format, of r1 c1 r2 c2])
          (use h b e in auto)
      then show ?thesis by (simp add: e)
    qed
  qed
  have fb': "filled_before s' line (column - 1)"
    unfolding filled_before_def Let_def n'
  proof (intro allI impI)
    fix r1 c1 assume b: "r1 < n * n" "c1 < n * n"
      and h: "int r1 < line - 1 \<or> (int r1 = line - 1 \<and> int c1 < column - 1 - 1)"
    then have ne: "\<not> (r1 = r \<and> c1 = c)" unfolding c r by auto
    from h have "int r1 < line - 1 \<or> (int r1 = line - 1 \<and> int c1 < column - 1)" by auto
    then have "cell (sudoku s) n r1 c1 \<noteq> ''#''"
      using filled_beforeD[OF fb n_def b] by blast
    with ne b show "cell (sudoku s') n r1 c1 \<noteq> ''#''" by (auto simp: cells)
  qed
  show ?thesis using ws' so' rk' fb' by (simp add: gen_inv_def)
qed

lemma py_get_error: "py_get xs i = Inl e \<Longrightarrow> e = IndexError"
  by (simp add: py_get_def split: option.splits)

lemma py_set_error: "py_set xs i v = Inl e \<Longrightarrow> e = IndexError"
  by (simp add: py_set_def split: option.splits)

lemma line_squares_error: "line_squares sl k acc = Inl e \<Longrightarrow> e = IndexError"
  by (induction sl arbitrary: acc)
    (auto simp: bind_err_def split: sum.splits dest: py_get_error)

lemma column_cells_error: "column_cells sq k acc = Inl e \<Longrightarrow> e = IndexError"
  by (induction sq arbitrary: acc)
    (auto simp: bind_err_def split: sum.splits dest: py_get_error)

lemma column_lines_error: "column_lines g q k acc = Inl e \<Longrightarrow> e = IndexError"
  by (induction g arbitrary: acc)
    (auto simp: bind_err_def split: sum.splits dest: py_get_error column_cells_error)

lemma accessor_error:
  "get_line_elements s line = Inl e \<Longrightarrow> e = IndexError \<or> e = RequestOutOfBounds"
  "get_column_elements s column = Inl e \<Longrightarrow> e = IndexError \<or> e = RequestOutOfBounds"
  "get_square_elements s bc bl = Inl e \<Longrightarrow> e = IndexError \<or> e = RequestOutOfBounds"
  by (auto simp: get_line_elements_def get_column_elements_def get_square_elements_def
      Let_def bind_err_def split: if_splits sum.splits
      dest: py_get_error line_squares_error column_lines_error)

lemma is_violating_error:
  "is_violating s char column line = Inl e \<Longrightarrow> e \<noteq> IncorrectSize k"
  by (auto simp: is_violating_def bind_err_def split: if_splits sum.splits
      dest: accessor_error)

lemma set_cell_error: "set_cell_unshared g a b c d char = Inl e \<Longrightarrow> e = IndexError"
  by (auto simp: set_cell_unshared_def bind_err_def split: sum.splits dest: py_get_error py_set_error)

lemma insert_unchecked_error:
  "insert_into_cell_unshared s char column line True = (Some e, s') \<Longrightarrow> e \<noteq> IncorrectSize k"
  by (auto simp: insert_into_cell_unshared_def split: if_splits sum.splits dest: set_cell_error)

lemma draw_cond_error: "draw_cond s treshold i pick column line = Inl e \<Longrightarrow> e \<noteq> IncorrectSize k"
  by (auto simp: draw_cond_def bind_err_def split: option.splits sum.splits if_splits
      dest: is_violating_error py_get_error)

lemma randint_error: "randint a b rs = Some (Inl e) \<Longrightarrow> e = ValueError"
  by (auto simp: randint_def split: if_splits list.splits)

lemma draw_body_error: "draw_body s treshold i rs = Some (Inl e) \<Longrightarrow> e \<noteq> IncorrectSize k"
  by (auto simp: draw_body_def split: option.splits sum.splits if_splits prod.splits
      dest: py_get_error py_set_error randint_error)

lemma draw_loop_error:
  assumes "draw_loop s treshold i pick column line rs = Some y"
  shows "y \<noteq> Inl (IncorrectSize k)"
proof (rule draw_loop.raw_induct[where P = "\<lambda>s treshold i pick column line rs y.
      y \<noteq> Inl (IncorrectSize k)", OF _ assms], goal_cases)
  case (1 f s treshold i pick column line rs y)
  show ?case
  proof (cases "draw_cond s treshold i pick column line")
    case (Inl e)
    with 1(2) draw_cond_error[OF Inl, of k] show ?thesis by auto
  next
    case (Inr again)
    show ?thesis
    proof (cases again)
      case False
      with 1(2) Inr show ?thesis by auto
    next
      case True
      show ?thesis
      proof (cases "draw_body s treshold i rs")
        case None
        with 1(2) Inr True show ?thesis by simp
      next
        case (Some d)
        show ?thesis
        proof (cases d)
          case (Inl e)
          with 1(2) Inr True Some draw_body_error[of s treshold i rs e k] show ?thesis by auto
        next
          case (Inr tup)
          obtain t1 p rs1 where "tup = (t1, p, rs1)" by (cases tup)
          with 1(2) \<open>draw_cond s treshold i pick column line = Inr again\<close> True Some Inr
          have "f s t1 i (Some p) column line rs1 = Some y" by simp
          then show ?thesis by (rule 1(1))
        qed
      qed
    qed
  qed
qed

lemma column_body_cases:
  assumes "(if column < size_s s ^ 2 + 1 \<and> column > 0 then
        (case draw_loop s treshold i None column line rs of
           None \<Rightarrow> None
         | Some (Inl e) \<Rightarrow> Some (Inl e)
         | Some (Inr (treshold, None, rs)) \<Rightarrow> Some (Inl TypeError)
         | Some (Inr (treshold, Some pick, rs)) \<Rightarrow>
             (case is_violating s pick column line of
                Inl e \<Rightarrow> Some (Inl e)
              | Inr violating \<Rightarrow>
                  if violating then
                    (case insert_into_cell_unshared s ''#'' column line True of
                       (Some e, s) \<Rightarrow> Some (Inl e)
                     | (None, s) \<Rightarrow>
                         (case py_set treshold i (chars s) of
                            Inl e \<Rightarrow> Some (Inl e)
                          | Inr treshold \<Rightarrow>
                              f s treshold line (column - 1) (i - 1) rs))
                  else
                    (case insert_into_cell_unshared s pick column line True of
                       (Some e, s) \<Rightarrow> Some (Inl e)
                     | (None, s) \<Rightarrow> f s treshold line (column + 1) (i + 1) rs)))
      else Some (Inr (s, treshold, column, i, rs))) = Some y"
  obtains (stop) "\<not> (column < size_s s ^ 2 + 1 \<and> column > 0)" "y = Inr (s, treshold, column, i, rs)"
  | (undo) pick s1 t2 rs1 where "is_violating s pick column line = Inr True"
      "insert_into_cell_unshared s ''#'' column line True = (None, s1)"
      "f s1 t2 line (column - 1) (i - 1) rs1 = Some y"
  | (commit) pick s1 t1 rs1 where "is_violating s pick column line = Inr False"
      "insert_into_cell_unshared s pick column line True = (None, s1)"
      "f s1 t1 line (column + 1) (i + 1) rs1 = Some y"
  | (raised) e where "y = Inl e" "\<forall>k. e \<noteq> IncorrectSize k"
proof (cases "column < size_s s ^ 2 + 1 \<and> column > 0")
  case False
  from assms[unfolded if_not_P[OF False]] stop[OF False] show ?thesis by auto
next
  case True
  note body = assms[unfolded if_P[OF True]]
  show ?thesis
  proof (cases "draw_loop s treshold i None column line rs")
    case None
    with body show ?thesis by auto
  next
    case (Some d)
    show ?thesis
    proof (cases d)
      case (Inl e)
      from draw_loop_error[OF Some] Inl have "\<forall>k. e \<noteq> IncorrectSize k" by auto
      with body Some Inl raised show ?thesis by auto
    next
      case (Inr tr)
      obtain t1 p rs1 where tr: "tr = (t1, p, rs1)" by (cases tr)
      show ?thesis
      proof (cases p)
        case None
        have "\<forall>k. TypeError \<noteq> IncorrectSize k" by simp
        with body Some Inr tr None raised[of TypeError] show ?thesis by auto
      next
        case (Some pick)
        note body' = body[unfolded \<open>draw_loop s treshold i None column line rs = Some d\<close>
            Inr tr Some, simplified]
        show ?thesis
        proof (cases "is_violating s pick column line")
          case (Inl e)
          from is_violating_error[OF Inl] have "\<forall>k. e \<noteq> IncorrectSize k" by auto
          with body' Inl raised show ?thesis by auto
        next
          case (Inr v)
          show ?thesis
          proof (cases v)
            case True
            obtain r s1 where ins: "insert_into_cell_unshared s ''#'' column line True = (r, s1)"
              by (cases "insert_into_cell_unshared s ''#'' column line True")
            show ?thesis
            proof (cases r)
              case None
              show ?thesis
              proof (cases "py_set t1 i (chars s1)")
                case (Inl e)
                from py_set_error[OF Inl] have "\<forall>k. e \<noteq> IncorrectSize k" by auto
                with body' \<open>is_violating s pick column line = Inr v\<close> True ins None Inl raised
                show ?thesis by auto
              next
                case (Inr t2)
                with body' \<open>is_violating s pick column line = Inr v\<close> True ins None undo
                show ?thesis by auto
              qed
            next
              case (Some e)
              from insert_unchecked_error[OF ins[unfolded Some]]
              have "\<forall>k. e \<noteq> IncorrectSize k" by auto
              with body' Inr True ins Some raised show ?thesis by auto
            qed
          next
            case False
            obtain r s1 where ins: "insert_into_cell_unshared s pick column line True = (r, s1)"
              by (cases "insert_into_cell_unshared s pick column line True")
            show ?thesis
            proof (cases r)
              case None
              with body' Inr False ins commit show ?thesis by auto
            next
              case (Some e)
              from insert_unchecked_error[OF ins[unfolded Some]]
              have "\<forall>k. e \<noteq> IncorrectSize k" by auto
              with body' Inr False ins Some raised show ?thesis by auto
            qed
          qed
        qed
      qed
    qed
  qed
qed

lemma column_post_size: "size_s s1 = size_s s \<Longrightarrow> column_post s1 line y \<Longrightarrow> column_post s line y"
  by (auto simp: column_post_def split: sum.splits)

lemma column_loop_inv:
  assumes "column_loop s treshold line column i rs = Some y"
  shows "gen_inv s \<longrightarrow> filled_before s line column \<longrightarrow> column_post s line y"
proof (rule column_loop.raw_induct[where P = "\<lambda>s treshold line column i rs y.
    gen_inv s \<longrightarrow> filled_before s line column \<longrightarrow> column_post s line y", OF _ assms], goal_cases)
  case (1 f s treshold line column i rs y)
  from 1(2) show ?case
  proof (cases rule: column_body_cases)
    case stop
    then show ?thesis by (simp add: column_post_def)
  next
    case (undo pick s1 t2 rs1)
    show ?thesis
    proof (intro impI)
      assume a: "gen_inv s" "filled_before s line column"
      from backtrack_step[OF a undo(1,2)]
      have "gen_inv s1" "filled_before s1 line (column - 1)" by simp_all
      with 1(1)[OF undo(3)] have "column_post s1 line y" by blast
      with insert_into_cell_fields[OF undo(2)] show "column_post s line y"
        using column_post_size by blast
    qed
  next
    case (commit pick s1 t1 rs1)
    show ?thesis
    proof (intro impI)
      assume a: "gen_inv s" "filled_before s line column"
      from commit_step[OF a commit(1,2)]
      have "gen_inv s1" "filled_before s1 line (column + 1)" by simp_all
      with 1(1)[OF commit(3)] have "column_post s1 line y" by blast
      with insert_into_cell_fields[OF commit(2)] show "column_post s line y"
        using column_post_size by blast
    qed
  next
    case (raised e)
    then show ?thesis by (simp add: column_post_def)
  qed
qed

lemma int_square_nat: "int (nat x * nat x) \<le> x ^ 2"
  by (cases "0 \<le> x") (simp_all add: power2_eq_square)

lemma filled_before_next:
  assumes "filled_before s line column" "\<not> column < size_s s ^ 2 + 1"
  shows "filled_before s (line + 1) 1"
  unfolding filled_before_def Let_def
proof (intro allI impI)
  fix r c
  assume b: "r < nat (size_s s) * nat (size_s s)" "c < nat (size_s s) * nat (size_s s)"
    and h: "int r < line + 1 - 1 \<or> (int r = line + 1 - 1 \<and> int c < 1 - 1)"
  have "int c < int (nat (size_s s) * nat (size_s s))" using b(2) by (rule iffD2[OF of_nat_less_iff])
  also have "\<dots> \<le> size_s s ^ 2" by (rule int_square_nat)
  finally have "int c < column - 1" using assms(2) by simp
  with h have "int r < line - 1 \<or> (int r = line - 1 \<and> int c < column - 1)" by auto
  then show "cell (sudoku s) (nat (size_s s)) r c \<noteq> ''#''"
    using filled_beforeD[OF assms(1) refl b] by blast
qed

lemma filled_before_prev:
  assumes "filled_before s line column"
  shows "filled_before s (line - 1) column'"
  unfolding filled_before_def Let_def
proof (intro allI impI)
  fix r c
  assume b: "r < nat (size_s s) * nat (size_s s)" "c < nat (size_s s) * nat (size_s s)"
    and h: "int r < line - 1 - 1 \<or> (int r = line - 1 - 1 \<and> int c < column' - 1)"
  then have "int r < line - 1 \<or> (int r = line - 1 \<and> int c < column - 1)" by auto
  then show "cell (sudoku s) (nat (size_s s)) r c \<noteq> ''#''"
    using filled_beforeD[OF assms(1) refl b] by blast
qed

lemma filled_before_all:
  assumes "filled_before s line column" "\<not> line < size_s s ^ 2 + 1"
    and b: "r < nat (size_s s) * nat (size_s s)" "c < nat (size_s s) * nat (size_s s)"
  shows "cell (sudoku s) (nat (size_s s)) r c \<noteq> ''#''"
proof -
  have "int r < int (nat (size_s s) * nat (size_s s))" using b(1) by (rule iffD2[OF of_nat_less_iff])
  also have "\<dots> \<le> size_s s ^ 2" by (rule int_square_nat)
  finally have "int r < line - 1" using assms(2) by simp
  then show ?thesis using filled_beforeD[OF assms(1) refl b] by blast
qed

lemma line_post_size: "size_s s1 = size_s s \<Longrightarrow> line_post s1 y \<Longrightarrow> line_post s y"
  by (auto simp: line_post_def split: sum.splits)

lemma line_loop_inv:
  assumes "line_loop s treshold line column i rs = Some y"
  shows "gen_inv s \<longrightarrow> filled_before s line column \<longrightarrow> line_post s y"
proof (rule line_loop.raw_induct[where P = "\<lambda>s treshold line column i rs y.
    gen_inv s \<longrightarrow> filled_before s line column \<longrightarrow> line_post s y", OF _ assms], goal_cases)
  case (1 f s treshold line column i rs y)
  show ?case
  proof (intro impI)
    assume a: "gen_inv s" "filled_before s line column"
    show "line_post s y"
    proof (cases "line < size_s s ^ 2 + 1")
      case False
      with 1(2) have y: "y = Inr (s, rs)" by simp
      show ?thesis
        unfolding y line_post_def using a(1) filled_before_all[OF a(2) False] by simp
    next
      case True
      note body = 1(2)[unfolded if_P[OF True]]
      show ?thesis
      proof (cases "column_loop s treshold line column i rs")
        case None
        with body show ?thesis by simp
      next
        case (Some d)
        show ?thesis
        proof (cases d)
          case (Inl e)
          with body Some show ?thesis by (auto simp: line_post_def)
        next
          case (Inr tup)
          obtain s1 t1 column1 i1 rs1 where tup: "tup = (s1, t1, column1, i1, rs1)"
            by (cases tup)
          from column_loop_inv[OF Some] a
          have post: "gen_inv s1" "filled_before s1 line column1" "size_s s1 = size_s s"
            "\<not> (column1 < size_s s ^ 2 + 1 \<and> column1 > 0)"
            by (simp_all add: column_post_def Inr tup)
          show ?thesis
          proof (cases "column1 > 0")
            case True
            with body Some Inr tup have run: "f s1 t1 (line + 1) 1 i1 rs1 = Some y" by simp
            from True post(4) have "\<not> column1 < size_s s1 ^ 2 + 1" by (simp add: post(3))
            from filled_before_next[OF post(2) this] post(1) 1(1)[OF run]
            have "line_post s1 y" by blast
            then show ?thesis using post(3) line_post_size by blast
          next
            case False
            with body Some Inr tup
            have run: "f s1 t1 (line - 1) (size_s s1 ^ 2) i1 rs1 = Some y" by simp
            from filled_before_prev[OF post(2)] post(1) 1(1)[OF run]
            have "line_post s1 y" by blast
            then show ?thesis using post(3) line_post_size by blast
          qed
        qed
      qed
    qed
  qed
qed

lemma perm_of_distinct:
  assumes inj: "inj_on f {..<N}" and mem: "\<forall>j<N. f j \<in> set ys"
    and ys: "distinct ys" "length ys = N"
  shows "mset (map f [0..<N]) = mset ys"
proof -
  have d: "distinct (map f [0..<N])"
    using inj by (simp add: distinct_map atLeast0LessThan)
  have sub: "set (map f [0..<N]) \<subseteq> set ys" using mem by auto
  have "card (set (map f [0..<N])) = N" using d distinct_card[OF d] by simp
  moreover have "card (set ys) = N" using ys distinct_card by blast
  ultimately have "set (map f [0..<N]) = set ys"
    using sub by (metis List.finite_set card_subset_eq)
  then show ?thesis using set_eq_iff_mset_eq_distinct[OF d ys(1)] by blast
qed

lemma full_grid_groups:
  assumes inv: "gen_inv s" and n: "n = nat (size_s s)"
    and full: "\<forall>r<n * n. \<forall>c<n * n. cell (sudoku s) n r c \<noteq> ''#''"
    and ch: "distinct (chars s)" "length (chars s) = n * n"
  shows "r < n * n \<Longrightarrow> mset (map (\<lambda>c. cell (sudoku s) n r c) [0..<n * n]) = mset (chars s)"
    and "c < n * n \<Longrightarrow> mset (map (\<lambda>r. cell (sudoku s) n r c) [0..<n * n]) = mset (chars s)"
    and "a < n \<Longrightarrow> b < n \<Longrightarrow>
      mset (map (\<lambda>j. cell (sudoku s) n (a * n + j div n) (b * n + j mod n)) [0..<n * n])
        = mset (chars s)"
proof -
  from inv have ws: "well_shaped s" and so: "symbols_ok s" and rk: "rules_kept s"
    by (simp_all add: gen_inv_def)
  note D = well_shapedD[OF ws n]
  have mem: "\<And>r c. r < n * n \<Longrightarrow> c < n * n \<Longrightarrow> cell (sudoku s) n r c \<in> set (chars s)"
    using so full by (auto simp: symbols_ok_def Let_def n[symmetric])
  have nd: "\<And>r c r' c'. r < n * n \<Longrightarrow> c < n * n \<Longrightarrow> r' < n * n \<Longrightarrow> c' < n * n \<Longrightarrow>
      r \<noteq> r' \<or> c \<noteq> c' \<Longrightarrow> r = r' \<or> c = c' \<or> (r div n = r' div n \<and> c div n = c' div n) \<Longrightarrow>
      cell (sudoku s) n r c \<noteq> cell (sudoku s) n r' c'"
  proof
    fix r c r' c'
    assume b: "r < n * n" "c < n * n" "r' < n * n" "c' < n * n"
      and h: "r \<noteq> r' \<or> c \<noteq> c'" "r = r' \<or> c = c' \<or> (r div n = r' div n \<and> c div n = c' div n)"
      and e: "cell (sudoku s) n r c = cell (sudoku s) n r' c'"
    have "cell (sudoku s) n r c = ''#''"
      by (rule rk[unfolded rules_kept_def Let_def n[symmetric], rule_format, of r c r' c'])
        (use b h e in auto)
    with full b show False by blast
  qed
  {
    assume r: "r < n * n"
    have "inj_on (\<lambda>c. cell (sudoku s) n r c) {..<n * n}"
      by (rule inj_onI) (use nd[OF r _ r] in auto)
    then show "mset (map (\<lambda>c. cell (sudoku s) n r c) [0..<n * n]) = mset (chars s)"
      by (rule perm_of_distinct) (use mem r ch in auto)
  }
  {
    assume c: "c < n * n"
    have "inj_on (\<lambda>r. cell (sudoku s) n r c) {..<n * n}"
      by (rule inj_onI) (use nd[OF _ c _ c] in auto)
    then show "mset (map (\<lambda>r. cell (sudoku s) n r c) [0..<n * n]) = mset (chars s)"
      by (rule perm_of_distinct) (use mem c ch in auto)
  }
  {
    assume a: "a < n" and b: "b < n"
    let ?f = "\<lambda>j. cell (sudoku s) n (a * n + j div n) (b * n + j mod n)"
    have "inj_on ?f {..<n * n}"
    proof (rule inj_onI)
      fix j j' assume j: "j \<in> {..<n * n}" "j' \<in> {..<n * n}" and e: "?f j = ?f j'"
      show "j = j'"
      proof (rule ccontr)
        assume "j \<noteq> j'"
        then have "j div n \<noteq> j' div n \<or> j mod n \<noteq> j' mod n"
          using divmod_eq_iff[OF D(1)] by blast
        then have ne: "a * n + j div n \<noteq> a * n + j' div n \<or> b * n + j mod n \<noteq> b * n + j' mod n"
          by simp
        have "?f j \<noteq> ?f j'"
          by (rule nd[OF _ _ _ _ ne])
            (use j box_position[OF a] box_position2[OF b D(1)] in auto)
        with e show False by contradiction
      qed
    qed
    then show "mset (map ?f [0..<n * n]) = mset (chars s)"
      by (rule perm_of_distinct)
        (use mem ch box_position(1)[OF a] box_position2(1)[OF b D(1)] in auto)
  }
qed

section \<open>The generation loops\<close>

lemma cell_empty_grid:
  assumes "r < n * n" "c < n * n"
  shows "cell (empty_grid (int n)) n r c = ''#''"
proof -
  have "r div n < n" "c div n < n" "r mod n < n" "c mod n < n"
    using assms by (simp_all add: div_less_square mod_less_square)
  then show ?thesis by (simp add: cell_def empty_grid_def)
qed

lemma hash_notin_alphabet: "''#'' \<notin> set (alphabet k)"
  using hash_notin_AVAILABLE_CHARS set_take_subset[of "nat (k * k)" AVAILABLE_CHARS]
  by (auto simp: alphabet_def)

lemma empty_grid_inv:
  assumes "1 \<le> k"
  shows "gen_inv \<lparr>size_s = k, sudoku = empty_grid k, chars = alphabet k\<rparr>"
    and "filled_before \<lparr>size_s = k, sudoku = empty_grid k, chars = alphabet k\<rparr> 1 1"
proof -
  let ?s = "\<lparr>size_s = k, sudoku = empty_grid k, chars = alphabet k\<rparr>"
  from assms have k: "k = int (nat k)" by simp
  have ws: "well_shaped ?s" using assms by (simp add: well_shaped_def empty_grid_def)
  have cells: "\<And>r c. r < nat k * nat k \<Longrightarrow> c < nat k * nat k \<Longrightarrow>
      cell (empty_grid k) (nat k) r c = ''#''"
    using cell_empty_grid[of _ "nat k"] k by metis
  have "symbols_ok ?s" by (simp add: symbols_ok_def Let_def hash_notin_alphabet cells)
  moreover have "rules_kept ?s" by (simp add: rules_kept_def Let_def cells)
  ultimately show "gen_inv ?s" using ws by (simp add: gen_inv_def)
  show "filled_before ?s 1 1" by (auto simp: filled_before_def Let_def)
qed

lemma full_grid_solved:
  assumes inv: "gen_inv s"
    and full: "\<forall>r<nat (size_s s) * nat (size_s s). \<forall>c<nat (size_s s) * nat (size_s s).
                 cell (sudoku s) (nat (size_s s)) r c \<noteq> ''#''"
    and ch: "distinct (chars s)" "length (chars s) = nat (size_s s) * nat (size_s s)"
  shows "solved s"
proof -
  define n where "n = nat (size_s s)"
  from inv have ws: "well_shaped s" by (simp add: gen_inv_def)
  note D = well_shapedD[OF ws n_def]
  note G = full_grid_groups[OF inv n_def full[folded n_def] ch(1) ch(2)[folded n_def]]
  have cellp: "case get_cell s column line of Inl e \<Rightarrow> False | Inr v \<Rightarrow> v \<noteq> ''#''"
    if "line \<in> {1..size_s s ^ 2}" "column \<in> {1..size_s s ^ 2}" for line column
  proof -
    from that coordE[OF ws n_def, of line] obtain r where r: "line = int r + 1" "r < n * n"
      by auto
    from that coordE[OF ws n_def, of column] obtain c where c: "column = int c + 1" "c < n * n"
      by auto
    show ?thesis
      unfolding r c get_cell_eq[OF ws n_def r(2) c(2)]
      using full[folded n_def] r(2) c(2) by simp
  qed
  have linep: "case get_line_elements s line of Inl e \<Rightarrow> False
      | Inr xs \<Rightarrow> mset xs = mset (chars s)"
    if "line \<in> {1..size_s s ^ 2}" for line
  proof -
    from that coordE[OF ws n_def, of line] obtain r where r: "line = int r + 1" "r < n * n"
      by auto
    show ?thesis
      unfolding r get_line_elements_eq[OF ws n_def r(2)] using G(1)[OF r(2)] by simp
  qed
  have colp: "case get_column_elements s column of Inl e \<Rightarrow> False
      | Inr xs \<Rightarrow> mset xs = mset (chars s)"
    if "column \<in> {1..size_s s ^ 2}" for column
  proof -
    from that coordE[OF ws n_def, of column] obtain c where c: "column = int c + 1" "c < n * n"
      by auto
    show ?thesis
      unfolding c get_column_elements_eq[OF ws n_def c(2)] using G(2)[OF c(2)] by simp
  qed
  have boxp: "case get_square_elements s bc bl of Inl e \<Rightarrow> False
      | Inr xs \<Rightarrow> mset xs = mset (chars s)"
    if "bc \<in> {1..size_s s}" "bl \<in> {1..size_s s}" for bc bl
  proof -
    from that have "bc = int (nat (bc - 1)) + 1" "nat (bc - 1) < n"
      "bl = int (nat (bl - 1)) + 1" "nat (bl - 1) < n"
      by (auto simp: D(2))
    then obtain a b where a: "bl = int a + 1" "a < n" and b: "bc = int b + 1" "b < n"
      by blast
    show ?thesis
      unfolding a b get_square_elements_eq[OF ws n_def a(2) b(2)] using G(3)[OF a(2) b(2)]
      by simp
  qed
  show ?thesis unfolding solved_def using cellp linep colp boxp by blast
qed

lemma Sudoku_init_solved:
  assumes "2 \<le> size'" "size' \<le> 7" "Sudoku_init size' [] rs = Some (Inr (s, rs'))"
  shows "size_s s = size' \<and> chars s = alphabet size'
     \<and> length (chars s) = nat (size' ^ 2) \<and> well_shaped s \<and> solved s"
proof -
  let ?s0 = "\<lparr>size_s = size', sudoku = empty_grid size', chars = alphabet size'\<rparr>"
  from assms have run: "line_loop ?s0 (replicate (nat (size' ^ 4)) (alphabet size')) 1 1 0 rs
      = Some (Inr (s, rs'))"
    by (simp add: Sudoku_init_def Let_def)
  from assms(1) have k: "1 \<le> size'" by simp
  from line_loop_inv[OF run] empty_grid_inv[OF k]
  have "line_post ?s0 (Inr (s, rs'))" by blast
  then have post: "gen_inv s" "size_s s = size'"
    "\<forall>r<nat (size_s s) * nat (size_s s). \<forall>c<nat (size_s s) * nat (size_s s).
        cell (sudoku s) (nat (size_s s)) r c \<noteq> ''#''"
    unfolding line_post_def sum.case prod.case select_convs by blast+
  from line_loop_fields[OF run] have ch: "chars s = alphabet size'" by simp
  have len: "length (chars s) = nat (size' * size')"
    unfolding ch using assms by (intro length_alphabet) auto
  have len': "length (chars s) = nat (size_s s) * nat (size_s s)"
    using len assms(1) by (simp add: post(2) nat_mult_distrib)
  have "solved s"
    by (rule full_grid_solved[OF post(1) post(3) _ len']) (simp add: ch distinct_alphabet)
  then show ?thesis using post ch len by (simp add: gen_inv_def power2_eq_square)
qed

section \<open>Reading back a written cell; the rule check by cells\<close>

lemma py_index_length_cong: "length xs = length ys \<Longrightarrow> py_index xs i = py_index ys i"
  by (simp add: py_index_def)

lemma insert_resolved:
  assumes ws: "well_shaped s" and n: "n = nat (size_s s)" and r: "r < n * n" and c: "c < n * n"
    and ix: "py_index (sudoku s) ((line - 1) div size_s s) = Some (r div n)"
      "py_index (sudoku s) ((column - 1) div size_s s) = Some (c div n)"
      "py_index (sudoku s) ((line - 1) mod size_s s) = Some (r mod n)"
      "py_index (sudoku s) ((column - 1) mod size_s s) = Some (c mod n)"
  shows "\<exists>s'. insert_into_cell_unshared s char column line True = (None, s')
     \<and> size_s s' = size_s s \<and> chars s' = chars s \<and> well_shaped s'
     \<and> (\<forall>r'<n * n. \<forall>c'<n * n.
           cell (sudoku s') n r' c' = (if r' = r \<and> c' = c then char else cell (sudoku s) n r' c'))"
proof -
  note D = well_shapedD[OF ws n]
  let ?g = "sudoku s"
  let ?g' = "?g[r div n := (?g ! (r div n))[c div n := (?g ! (r div n) ! (c div n))[r mod n :=
            (?g ! (r div n) ! (c div n) ! (r mod n))[c mod n := char]]]]"
  have b: "r div n < n" "c div n < n" "r mod n < n" "c mod n < n"
    using r c D(1) by (simp_all add: div_less_square)
  have sc: "set_cell_unshared ?g ((line - 1) div size_s s) ((column - 1) div size_s s)
      ((line - 1) mod size_s s) ((column - 1) mod size_s s) char = Inr ?g'"
  proof (rule set_cell_resolved)
    show "py_index ?g ((line - 1) div size_s s) = Some (r div n)" by (rule ix(1))
    show "py_index (?g ! (r div n)) ((column - 1) div size_s s) = Some (c div n)"
      using ix(2) py_index_length_cong[of "?g ! (r div n)" ?g] b D(3,4) by simp
    show "py_index (?g ! (r div n) ! (c div n)) ((line - 1) mod size_s s) = Some (r mod n)"
      using ix(3) py_index_length_cong[of "?g ! (r div n) ! (c div n)" ?g] b D(3,5) by simp
    show "py_index (?g ! (r div n) ! (c div n) ! (r mod n)) ((column - 1) mod size_s s)
        = Some (c mod n)"
      using ix(4) py_index_length_cong[of "?g ! (r div n) ! (c div n) ! (r mod n)" ?g] b D(3,6)
      by simp
  qed
  have ins: "insert_into_cell_unshared s char column line True = (None, s\<lparr>sudoku := ?g'\<rparr>)"
    using D(1) by (simp add: insert_into_cell_unshared_def D(2) sc[unfolded D(2)])
  have ws': "well_shaped (s\<lparr>sudoku := ?g'\<rparr>)"
    by (rule well_shaped_update[OF ws n b])
  have cells: "\<forall>r'<n * n. \<forall>c'<n * n.
           cell ?g' n r' c' = (if r' = r \<and> c' = c then char else cell ?g n r' c')"
    using cell_update[OF D(1) D(3), of r c _ _ char] D(4-) r c by auto
  show ?thesis using ins ws' cells by auto
qed

lemma last_index:
  fixes n :: nat
  assumes "0 < n"
  shows "n * n - 1 < n * n" "(n * n - 1) div n = n - 1" "(n * n - 1) mod n = n - 1"
proof -
  obtain m where m: "n = Suc m" using assms by (cases n) auto
  have e: "n * n - 1 = m * n + m" by (simp add: m)
  have mn: "m < n" "n - 1 = m" by (simp_all add: m)
  show "n * n - 1 < n * n" using assms by simp
  have "(m * n + m) div n = m" using mn(1) by (metis add.commute div_mult_self3 div_less add_0 less_numeral_extra(3) assms)
  then show "(n * n - 1) div n = n - 1" unfolding e mn(2) .
  have "(m * n + m) mod n = m" using mn(1) by (metis add.commute mod_mult_self3 mod_less)
  then show "(n * n - 1) mod n = n - 1" unfolding e mn(2) .
qed

lemma get_cell_out_of_range:
  "\<not> (1 \<le> column \<and> column \<le> size_s s ^ 2 \<and> 1 \<le> line \<and> line \<le> size_s s ^ 2) \<Longrightarrow>
   get_cell s column line = Inl RequestOutOfBounds"
  by (auto simp: get_cell_def Let_def in_range_def)

lemma get_cell_after_write:
  assumes ws: "well_shaped s" and ws': "well_shaped s'" and n: "n = nat (size_s s)"
    and sz: "size_s s' = size_s s" and r: "r < n * n" and c: "c < n * n"
    and cells: "\<forall>r'<n * n. \<forall>c'<n * n.
           cell (sudoku s') n r' c' = (if r' = r \<and> c' = c then char else cell (sudoku s) n r' c')"
  shows "get_cell s' (int c + 1) (int r + 1) = Inr char"
    and "\<forall>column line. column \<noteq> int c + 1 \<or> line \<noteq> int r + 1 \<longrightarrow>
           get_cell s' column line = get_cell s column line"
proof -
  have n': "n = nat (size_s s')" by (simp add: sz n)
  show "get_cell s' (int c + 1) (int r + 1) = Inr char"
    using get_cell_eq[OF ws' n' r c] cells r c by simp
  show "\<forall>column line. column \<noteq> int c + 1 \<or> line \<noteq> int r + 1 \<longrightarrow>
           get_cell s' column line = get_cell s column line"
  proof (intro allI impI)
    fix column line assume ne: "column \<noteq> int c + 1 \<or> line \<noteq> int r + 1"
    show "get_cell s' column line = get_cell s column line"
    proof (cases "1 \<le> column \<and> column \<le> size_s s ^ 2 \<and> 1 \<le> line \<and> line \<le> size_s s ^ 2")
      case False
      then show ?thesis
        using get_cell_out_of_range[of column s line] get_cell_out_of_range[of column s' line]
        by (simp add: sz)
    next
      case True
      from True coordE[OF ws n, of column] obtain c1 where c1: "column = int c1 + 1" "c1 < n * n"
        by auto
      from True coordE[OF ws n, of line] obtain r1 where r1: "line = int r1 + 1" "r1 < n * n"
        by auto
      from ne have "\<not> (r1 = r \<and> c1 = c)" unfolding c1 r1 by auto
      then show ?thesis
        unfolding c1 r1 get_cell_eq[OF ws n r1(2) c1(2)] get_cell_eq[OF ws' n' r1(2) c1(2)]
        using cells r1(2) c1(2) by auto
    qed
  qed
qed

lemma well_shaped_example_solved: "well_shaped example_solved"
  by (simp add: well_shaped_def example_solved_def)

lemma well_shaped_example_partial: "well_shaped example_partial"
  by (simp add: well_shaped_def example_partial_def)

lemma coord_ex:
  assumes ws: "well_shaped s" and n: "n = nat (size_s s)"
  shows "(\<exists>x\<in>{1..size_s s ^ 2}. Q x) \<longleftrightarrow> (\<exists>k<n * n. Q (int k + 1))"
proof
  assume "\<exists>x\<in>{1..size_s s ^ 2}. Q x"
  then obtain x where x: "1 \<le> x" "x \<le> size_s s ^ 2" "Q x" by auto
  from coordE[OF ws n x(1,2)] obtain k where "x = int k + 1" "k < n * n" .
  with x(3) show "\<exists>k<n * n. Q (int k + 1)" by blast
next
  note D = well_shapedD[OF ws n]
  assume "\<exists>k<n * n. Q (int k + 1)"
  then obtain k where k: "k < n * n" "Q (int k + 1)" by blast
  have "int k + 1 \<le> size_s s ^ 2"
    using int_less_square[OF k(1)] by (simp add: D(2) power2_eq_square)
  with k(2) show "\<exists>x\<in>{1..size_s s ^ 2}. Q x" by (intro bexI[of _ "int k + 1"]) auto
qed

lemma is_violating_by_cells:
  assumes ws: "well_shaped s" and ch: "length char = 1" "char \<in> set (chars s)"
    and rng: "1 \<le> column" "column \<le> size_s s ^ 2" "1 \<le> line" "line \<le> size_s s ^ 2"
  shows "is_violating s char column line = Inr (
       (\<exists>c\<in>{1..size_s s ^ 2}. get_cell s c line = Inr char)
     \<or> (\<exists>l\<in>{1..size_s s ^ 2}. get_cell s column l = Inr char)
     \<or> (\<exists>c\<in>{1..size_s s ^ 2}. \<exists>l\<in>{1..size_s s ^ 2}.
           (c - 1) div size_s s = (column - 1) div size_s s
         \<and> (l - 1) div size_s s = (line - 1) div size_s s
         \<and> get_cell s c l = Inr char))"
proof -
  define n where "n = nat (size_s s)"
  note D = well_shapedD[OF ws n_def]
  from coordE[OF ws n_def rng(1,2)] obtain c where c: "column = int c + 1" "c < n * n" .
  from coordE[OF ws n_def rng(3,4)] obtain r where r: "line = int r + 1" "r < n * n" .
  have dv: "\<And>a b. int a div int n = int b div int n \<longleftrightarrow> a div n = b div n"
    by (metis of_nat_div of_nat_eq_iff)
  have 1: "(\<exists>c\<in>{1..size_s s ^ 2}. get_cell s c line = Inr char)
      \<longleftrightarrow> (\<exists>c'<n * n. cell (sudoku s) n r c' = char)"
    unfolding coord_ex[OF ws n_def] r
    using get_cell_eq[OF ws n_def r(2)] by auto
  have 2: "(\<exists>l\<in>{1..size_s s ^ 2}. get_cell s column l = Inr char)
      \<longleftrightarrow> (\<exists>r'<n * n. cell (sudoku s) n r' c = char)"
    unfolding coord_ex[OF ws n_def] c
    using get_cell_eq[OF ws n_def _ c(2)] by auto
  have 3: "(\<exists>c\<in>{1..size_s s ^ 2}. \<exists>l\<in>{1..size_s s ^ 2}.
           (c - 1) div size_s s = (column - 1) div size_s s
         \<and> (l - 1) div size_s s = (line - 1) div size_s s
         \<and> get_cell s c l = Inr char)
      \<longleftrightarrow> (\<exists>r'<n * n. \<exists>c'<n * n. r' div n = r div n \<and> c' div n = c div n
               \<and> cell (sudoku s) n r' c' = char)"
    unfolding coord_ex[OF ws n_def]
    unfolding c r add_diff_cancel_right' D(2) dv
    using get_cell_eq[OF ws n_def] by (auto; blast)
  show ?thesis
    unfolding 1 2 3 unfolding c r
    by (rule is_violating_eq[OF ws n_def r(2) c(2) ch])
qed

lemma is_violating_by_lists:
  assumes "get_line_elements s line = Inr line_elements"
    "get_column_elements s column = Inr column_elements"
    "get_square_elements s ((column - 1) div size_s s + 1) ((line - 1) div size_s s + 1)
       = Inr square_elements"
    "length char = 1" "char \<in> set (chars s)"
  shows "is_violating s char column line
    = Inr (char \<in> set line_elements \<union> set column_elements \<union> set square_elements)"
  using assms by (simp add: is_violating_def bind_err_def)

section \<open>Exceptions of the constructor\<close>

lemma column_loop_error:
  assumes "column_loop s treshold line column i rs = Some y"
  shows "y \<noteq> Inl (IncorrectSize k)"
proof (rule column_loop.raw_induct[where P = "\<lambda>s treshold line column i rs y.
      y \<noteq> Inl (IncorrectSize k)", OF _ assms], goal_cases)
  case (1 f s treshold line column i rs y)
  from 1(2) show ?case
  proof (cases rule: column_body_cases)
    case stop
    then show ?thesis by simp
  next
    case (undo pick s1 t2 rs1)
    from undo(3) show ?thesis by (rule 1(1))
  next
    case (commit pick s1 t1 rs1)
    from commit(3) show ?thesis by (rule 1(1))
  next
    case (raised e)
    then show ?thesis by simp
  qed
qed

lemma line_loop_error:
  assumes "line_loop s treshold line column i rs = Some y"
  shows "y \<noteq> Inl (IncorrectSize k)"
proof (rule line_loop.raw_induct[where P = "\<lambda>s treshold line column i rs y.
      y \<noteq> Inl (IncorrectSize k)", OF _ assms], goal_cases)
  case (1 f s treshold line column i rs y)
  show ?case
  proof (cases "line < size_s s ^ 2 + 1")
    case False
    with 1(2) show ?thesis by auto
  next
    case True
    note body = 1(2)[unfolded if_P[OF True]]
    show ?thesis
    proof (cases "column_loop s treshold line column i rs")
      case None
      with body show ?thesis by simp
    next
      case (Some d)
      show ?thesis
      proof (cases d)
        case (Inl e)
        with body Some column_loop_error[OF Some, of k] show ?thesis by auto
      next
        case (Inr tup)
        obtain s1 t1 column1 i1 rs1 where tup: "tup = (s1, t1, column1, i1, rs1)"
          by (cases tup)
        show ?thesis
        proof (cases "column1 > 0")
          case True
          with body Some Inr tup have "f s1 t1 (line + 1) 1 i1 rs1 = Some y" by simp
          then show ?thesis by (rule 1(1))
        next
          case False
          with body Some Inr tup
          have "f s1 t1 (line - 1) (size_s s1 ^ 2) i1 rs1 = Some y" by simp
          then show ?thesis by (rule 1(1))
        qed
      qed
    qed
  qed
qed

lemma minus_one_div_mod:
  fixes n :: nat
  assumes "0 < n"
  shows "(0 - 1) div int n = - 1" "(0 - 1) mod int n = int (n - 1)"
  using assms by (simp_all add: zmod_minus1 div_eq_minus1 of_nat_diff)

section \<open>The cell write in a store\<close>

text \<open>
  First the write on an unshared object: the store after \<open>set_cell\<close>, seen through the
  references of the object, is the nested list that \<open>set_cell_unshared\<close> returns.
\<close>

lemma concat_map_concat: "concat (map concat xss) = concat (concat xss)"
  by (induction xss) auto


lemma map_update_one:
  assumes "i < length xs" "\<And>k. k < length xs \<Longrightarrow> k \<noteq> i \<Longrightarrow> f' (xs ! k) = f (xs ! k)"
    "f' (xs ! i) = y"
  shows "map f' xs = (map f xs)[i := y]"
  by (rule nth_equalityI) (use assms in \<open>auto simp: nth_list_update\<close>)

lemma distinct_concat_disjoint:
  "distinct (concat xss) \<Longrightarrow> i < length xss \<Longrightarrow> k < length xss \<Longrightarrow> i \<noteq> k \<Longrightarrow>
   set (xss ! i) \<inter> set (xss ! k) = {}"
proof (induction xss arbitrary: i k)
  case Nil
  then show ?case by simp
next
  case (Cons xs xss)
  from Cons.prems(1) have dj: "set xs \<inter> \<Union> (set ` set xss) = {}" and d: "distinct (concat xss)"
    by auto
  have sub: "\<And>m. m < length xss \<Longrightarrow> set (xss ! m) \<subseteq> \<Union> (set ` set xss)"
    using nth_mem by blast
  show ?case
  proof (cases i)
    case 0
    with Cons.prems obtain k' where k': "k = Suc k'" "k' < length xss" by (cases k) auto
    from sub[OF k'(2)] dj show ?thesis unfolding 0 k'(1) by auto
  next
    case (Suc i')
    with Cons.prems have i': "i' < length xss" by simp
    show ?thesis
    proof (cases k)
      case 0
      from sub[OF i'] dj show ?thesis unfolding 0 Suc by auto
    next
      case (Suc k')
      with \<open>i = Suc i'\<close> Cons.prems Cons.IH[OF d, of i' k'] show ?thesis by auto
    qed
  qed
qed

lemma distinct_concat_nth: "distinct (concat xss) \<Longrightarrow> i < length xss \<Longrightarrow> distinct (xss ! i)"
  by (induction xss arbitrary: i) (auto simp: nth_Cons split: nat.splits)

lemma map_nth_update_other:
  "addr \<notin> set xs \<Longrightarrow> map (\<lambda>a. st[addr := x] ! a) xs = map (\<lambda>a. st ! a) xs"
  by (induction xs) auto

lemma map_nth_update_line:
  assumes "distinct sq" "c < length sq" "sq ! c < length st"
  shows "map (\<lambda>a. st[sq ! c := x] ! a) sq = (map (\<lambda>a. st ! a) sq)[c := x]"
proof (rule map_update_one[where f = "\<lambda>a. st ! a"])
  show "c < length sq" by (rule assms(2))
next
  fix k assume "k < length sq" "k \<noteq> c"
  with assms(1,2) have "sq ! k \<noteq> sq ! c" by (simp add: nth_eq_iff_index_eq)
  then show "st[sq ! c := x] ! (sq ! k) = st ! (sq ! k)" by simp
next
  show "st[sq ! c := x] ! (sq ! c) = x" using assms(3) by simp
qed

lemma view_update:
  fixes g :: "nat list list list"
  assumes us: "distinct (concat (concat g))"
    and a: "a < length g" and b: "b < length (g ! a)" and c: "c < length (g ! a ! b)"
    and v: "g ! a ! b ! c < length st"
  shows "map (map (map (\<lambda>p. st[g ! a ! b ! c := x] ! p))) g
    = (map (map (map (\<lambda>p. st ! p))) g)[a := (map (map (\<lambda>p. st ! p)) (g ! a))[b :=
         (map (\<lambda>p. st ! p) (g ! a ! b))[c := x]]]"
proof -
  let ?addr = "g ! a ! b ! c"
  let ?st' = "st[?addr := x]"
  have ca: "?addr \<in> set (concat (g ! a))"
    using b c by (auto intro!: bexI[of _ "g ! a ! b"])
  have usm: "distinct (concat (map concat g))" using us by (simp add: concat_map_concat)
  have d2: "distinct (concat (g ! a))"
    using distinct_concat_nth[OF usm, of a] a by simp
  have d1: "distinct (g ! a ! b)" using distinct_concat_nth[OF d2 b] .
  have sq: "map (\<lambda>a. ?st' ! a) (g ! a ! b) = (map (\<lambda>a. st ! a) (g ! a ! b))[c := x]"
    by (rule map_nth_update_line[OF d1 c v])
  have sl: "map (map (\<lambda>a. ?st' ! a)) (g ! a)
      = (map (map (\<lambda>a. st ! a)) (g ! a))[b := (map (\<lambda>a. st ! a) (g ! a ! b))[c := x]]"
  proof (rule map_update_one[where f = "map (\<lambda>a. st ! a)"])
    show "b < length (g ! a)" by (rule b)
    show "map (\<lambda>a. ?st' ! a) (g ! a ! b) = (map (\<lambda>a. st ! a) (g ! a ! b))[c := x]" by (rule sq)
  next
    fix k assume k: "k < length (g ! a)" "k \<noteq> b"
    have "?addr \<in> set (g ! a ! b)" using c by simp
    with distinct_concat_disjoint[OF d2 b k(1)] k(2) have "?addr \<notin> set (g ! a ! k)" by auto
    then show "map (\<lambda>a. ?st' ! a) (g ! a ! k) = map (\<lambda>a. st ! a) (g ! a ! k)"
      by (rule map_nth_update_other)
  qed
  have rest: "map (map (\<lambda>a. ?st' ! a)) (g ! k) = map (map (\<lambda>a. st ! a)) (g ! k)"
    if k: "k < length g" "k \<noteq> a" for k
  proof -
    from distinct_concat_disjoint[OF usm, of a k] a k ca
    have nin: "?addr \<notin> set (concat (g ! k))" by auto
    show ?thesis
    proof (rule map_cong[OF refl])
      fix sq assume "sq \<in> set (g ! k)"
      with nin have "?addr \<notin> set sq" by auto
      then show "map (\<lambda>a. ?st' ! a) sq = map (\<lambda>a. st ! a) sq" by (rule map_nth_update_other)
    qed
  qed
  show ?thesis
    by (rule map_update_one[where f = "map (map (\<lambda>a. st ! a))", OF a rest sl])
qed


lemma count_update:
  "d < length row \<Longrightarrow>
   length (filter P (row[d := v])) + (if P (row ! d) then 1 else 0)
     = length (filter P row) + (if P v then 1 else 0)"
proof (induction row arbitrary: d)
  case Nil
  then show ?case by simp
next
  case (Cons x row)
  show ?case
  proof (cases d)
    case 0
    then show ?thesis by simp
  next
    case (Suc d')
    with Cons.prems have "d' < length row" by simp
    from Cons.IH[OF this] show ?thesis unfolding Suc by (cases "P x") simp_all
  qed
qed

lemma count_concat_update:
  "i < length xss \<Longrightarrow>
   length (filter P (concat (xss[i := ys]))) + length (filter P (xss ! i))
     = length (filter P (concat xss)) + length (filter P ys)"
  by (induction xss arbitrary: i) (auto split: nat.splits)

lemma concat3: "concat (concat (concat g)) = concat (map (\<lambda>L. concat (concat L)) g)"
  by (induction g) auto

lemma concat2: "concat (concat L) = concat (map concat L)"
  by (induction L) auto

lemma count_put:
  fixes g :: "'a list list list list"
  assumes "a < length g" "b < length (g ! a)" "c < length (g ! a ! b)"
    "d < length (g ! a ! b ! c)"
  shows "length (filter P (concat (concat (concat
            (g[a := (g ! a)[b := (g ! a ! b)[c := (g ! a ! b ! c)[d := v]]]])))))
          + (if P (g ! a ! b ! c ! d) then 1 else 0)
       = length (filter P (concat (concat (concat g)))) + (if P v then 1 else 0)"
proof -
  let ?R' = "(g ! a ! b ! c)[d := v]"
  let ?S' = "(g ! a ! b)[c := ?R']"
  let ?L' = "(g ! a)[b := ?S']"
  have x3: "length (filter P ?R') + (if P (g ! a ! b ! c ! d) then 1 else 0)
      = length (filter P (g ! a ! b ! c)) + (if P v then 1 else 0)"
    by (rule count_update[OF assms(4)])
  have x2: "length (filter P (concat ?S')) + length (filter P (g ! a ! b ! c))
      = length (filter P (concat (g ! a ! b))) + length (filter P ?R')"
    by (rule count_concat_update[OF assms(3)])
  have "length (filter P (concat ((map concat (g ! a))[b := concat ?S'])))
        + length (filter P (map concat (g ! a) ! b))
      = length (filter P (concat (map concat (g ! a)))) + length (filter P (concat ?S'))"
    by (rule count_concat_update) (use assms(2) in simp)
  then have x1: "length (filter P (concat (concat ?L'))) + length (filter P (concat (g ! a ! b)))
      = length (filter P (concat (concat (g ! a)))) + length (filter P (concat ?S'))"
    using assms(2) by (simp add: concat2[of ?L'] concat2[of "g ! a"] map_update)
  have "length (filter P (concat ((map (\<lambda>L. concat (concat L)) g)[a := concat (concat ?L')])))
        + length (filter P (map (\<lambda>L. concat (concat L)) g ! a))
      = length (filter P (concat (map (\<lambda>L. concat (concat L)) g)))
        + length (filter P (concat (concat ?L')))"
    by (rule count_concat_update) (use assms(1) in simp)
  then have x0: "length (filter P (concat (concat (concat (g[a := ?L'])))))
        + length (filter P (concat (concat (g ! a))))
      = length (filter P (concat (concat (concat g)))) + length (filter P (concat (concat ?L')))"
    using assms(1) by (simp add: concat3[of "g[a := ?L']"] concat3[of g] map_update)
  from x0 x1 x2 x3 show ?thesis by linarith
qed

lemma set_cell_sim:
  fixes g :: "nat list list list"
  assumes us: "unshared g" and vr: "valid_refs st g"
  shows "case set_cell st g a b c d char of
           Inl e \<Rightarrow> set_cell_unshared (map (map (map (\<lambda>p. st ! p))) g) a b c d char = Inl e
         | Inr st' \<Rightarrow> set_cell_unshared (map (map (map (\<lambda>p. st ! p))) g) a b c d char
                        = Inr (map (map (map (\<lambda>p. st' ! p))) g)
                      \<and> length st' = length st
                      \<and> (\<forall>p. p \<notin> set (concat (concat g)) \<longrightarrow> st' ! p = st ! p)"
proof -
  let ?G = "map (map (map (\<lambda>p. st ! p))) g"
  show ?thesis
  proof (cases "py_index g a")
    case None
    then have "py_index ?G a = None" using py_index_length_cong[of ?G g] by simp
    with None show ?thesis
      by (simp add: set_cell_def set_cell_unshared_def bind_err_def py_get_def)
  next
    case (Some a')
    note ia = py_index_less[OF Some]
    have Ga: "py_index ?G a = Some a'" using Some py_index_length_cong[of ?G g] by simp
    show ?thesis
    proof (cases "py_index (g ! a') b")
      case None
      then have "py_index (?G ! a') b = None"
        using py_index_length_cong[of "?G ! a'" "g ! a'"] ia by simp
      with None Some Ga show ?thesis
        by (simp add: set_cell_def set_cell_unshared_def bind_err_def py_get_def)
    next
      case (Some b')
      note ib = py_index_less[OF Some]
      have Gb: "py_index (?G ! a') b = Some b'"
        using Some py_index_length_cong[of "?G ! a'" "g ! a'"] ia by simp
      show ?thesis
      proof (cases "py_index (g ! a' ! b') c")
        case None
        then have "py_index (?G ! a' ! b') c = None"
          using py_index_length_cong[of "?G ! a' ! b'" "g ! a' ! b'"] ia ib by simp
        with None \<open>py_index g a = Some a'\<close> \<open>py_index (g ! a') b = Some b'\<close> Ga Gb
        show ?thesis
          by (simp add: set_cell_def set_cell_unshared_def bind_err_def py_get_def)
      next
        case (Some c')
        note ic = py_index_less[OF Some]
        let ?addr = "g ! a' ! b' ! c'"
        have Gc: "py_index (?G ! a' ! b') c = Some c'"
          using Some py_index_length_cong[of "?G ! a' ! b'" "g ! a' ! b'"] ia ib by simp
        have Grow: "?G ! a' ! b' ! c' = st ! ?addr" using ia ib ic by simp
        have mem: "?addr \<in> set (concat (concat g))"
          using ia ib ic by (auto intro!: bexI[of _ "g ! a' ! b'"] bexI[of _ "g ! a'"])
        then have va: "?addr < length st" using vr unfolding valid_refs_def by blast
        note reads = \<open>py_index g a = Some a'\<close> \<open>py_index (g ! a') b = Some b'\<close> Some
        show ?thesis
        proof (cases "py_index (st ! ?addr) d")
          case None
          with reads Ga Gb Gc Grow show ?thesis
            by (simp add: set_cell_def set_cell_unshared_def bind_err_def py_get_def py_set_def)
        next
          case (Some d')
          let ?st' = "st[?addr := (st ! ?addr)[d' := char]]"
          have st: "set_cell st g a b c d char = Inr ?st'"
            using reads Some
            by (simp add: set_cell_def bind_err_def py_get_def py_set_def)
          have "set_cell_unshared ?G a b c d char
            = Inr (?G[a' := (?G ! a')[b' := (?G ! a' ! b')[c' := (?G ! a' ! b' ! c')[d' := char]]]])"
            by (rule set_cell_resolved[OF Ga Gb Gc]) (use Some Grow in simp)
          also have "?G[a' := (?G ! a')[b' := (?G ! a' ! b')[c' := (?G ! a' ! b' ! c')[d' := char]]]]
            = map (map (map (\<lambda>p. ?st' ! p))) g"
            using view_update[OF us[unfolded unshared_def] ia ib ic va,
                of "(st ! ?addr)[d' := char]"] ia ib ic
            by simp
          finally have sc: "set_cell_unshared ?G a b c d char = Inr (map (map (map (\<lambda>p. ?st' ! p))) g)" .
          have fr: "\<forall>p. p \<notin> set (concat (concat g)) \<longrightarrow> ?st' ! p = st ! p"
            using mem by (metis nth_list_update_neq)
          show ?thesis unfolding st using sc fr by simp
        qed
      qed
    qed
  qed
qed


lemma view_cong:
  "\<forall>p \<in> set (concat (concat g)). st2 ! p = st ! p \<Longrightarrow>
   map (map (map (\<lambda>p. st2 ! p))) g = map (map (map (\<lambda>p. st ! p))) g"
  by auto

lemma insert_into_cell_unshared_eq:
  assumes us: "unshared (sudoku ob)" and vr: "valid_refs st (sudoku ob)"
    and ins: "insert_into_cell st ob char column line no_check = (r, st')"
  shows "insert_into_cell_unshared (view st ob) char column line no_check = (r, view st' ob)
     \<and> length st' = length st
     \<and> (\<forall>p. p \<notin> set (concat (concat (sudoku ob))) \<longrightarrow> st' ! p = st ! p)"
proof (cases "if no_check then Inr False else is_violating (view st ob) char column line")
  case (Inl e)
  with ins show ?thesis
    by (auto simp: insert_into_cell_def insert_into_cell_unshared_def split: bool.splits)
next
  case (Inr v)
  show ?thesis
  proof (cases "v \<or> size_s ob = 0")
    case True
    with ins Inr show ?thesis
      by (auto simp: insert_into_cell_def insert_into_cell_unshared_def view_def split: bool.splits)
  next
    case False
    let ?a = "(line - 1) div size_s ob" and ?b = "(column - 1) div size_s ob"
    let ?c = "(line - 1) mod size_s ob" and ?d = "(column - 1) mod size_s ob"
    note sim = set_cell_sim[OF us vr, of ?a ?b ?c ?d char]
    show ?thesis
    proof (cases "set_cell st (sudoku ob) ?a ?b ?c ?d char")
      case (Inl e)
      with sim have "set_cell_unshared (sudoku (view st ob)) ?a ?b ?c ?d char = Inl e"
        by (simp add: view_def)
      with ins Inr False Inl show ?thesis
        by (auto simp: insert_into_cell_def insert_into_cell_unshared_def view_def split: bool.splits)
    next
      case (Inr st2)
      with sim have s: "set_cell_unshared (sudoku (view st ob)) ?a ?b ?c ?d char
            = Inr (map (map (map (\<lambda>p. st2 ! p))) (sudoku ob))"
        "length st2 = length st"
        "\<forall>p. p \<notin> set (concat (concat (sudoku ob))) \<longrightarrow> st2 ! p = st ! p"
        by (simp_all add: view_def)
      from ins \<open>(if no_check then Inr False else is_violating (view st ob) char column line) = Inr v\<close>
        False Inr
      have r: "r = None" "st' = st2" by (auto simp: insert_into_cell_def split: bool.splits)
      have "insert_into_cell_unshared (view st ob) char column line no_check = (None, view st2 ob)"
        using \<open>(if no_check then Inr False else is_violating (view st ob) char column line) = Inr v\<close>
          False s(1)
        by (auto simp: insert_into_cell_unshared_def view_def split: bool.splits)
      then show ?thesis using s(2,3) by (simp add: r)
    qed
  qed
qed

lemma get_cell_view_cong:
  "size_s s1 = size_s s2 \<Longrightarrow> sudoku s1 = sudoku s2 \<Longrightarrow> get_cell s1 column line = get_cell s2 column line"
  by (simp add: get_cell_def Let_def cong: if_cong)

lemma well_shaped_cong:
  "size_s s1 = size_s s2 \<Longrightarrow> sudoku s1 = sudoku s2 \<Longrightarrow> well_shaped s1 = well_shaped s2"
  by (simp add: well_shaped_def cong: if_cong)

lemma from_architecture_view:
  assumes "well_shaped (view st src)"
  shows "size_s (from_architecture (sudoku src)) = size_s src"
    "sudoku (from_architecture (sudoku src)) = sudoku src"
    "length (sudoku src) > 0"
  using assms by (auto simp: from_architecture_def well_shaped_def view_def)


text \<open>
  Then the write on any object of the documented shape, shared inner lines or not: the
  call returns and the addressed cell holds the symbol.  That the other cells read as
  before needs the object to be unshared.
\<close>

lemma view_fields [simp]:
  "size_s (view st ob) = size_s ob" "chars (view st ob) = chars ob"
  "sudoku (view st ob) = map (map (map (\<lambda>a. st ! a))) (sudoku ob)"
  by (simp_all add: view_def)

lemma well_shaped_view_lengths:
  "\<forall>p. length (st' ! p) = length (st ! p) \<Longrightarrow> well_shaped (view st' ob) = well_shaped (view st ob)"
  by (simp add: well_shaped_def)

lemma view_shapeD:
  assumes ws: "well_shaped (view st ob)" and n: "n = nat (size_s ob)"
  shows "0 < n" "size_s ob = int n" "length (sudoku ob) = n"
    "\<And>a. a < n \<Longrightarrow> length (sudoku ob ! a) = n"
    "\<And>a b. a < n \<Longrightarrow> b < n \<Longrightarrow> length (sudoku ob ! a ! b) = n"
    "\<And>a b c. a < n \<Longrightarrow> b < n \<Longrightarrow> c < n \<Longrightarrow> length (st ! (sudoku ob ! a ! b ! c)) = n"
proof -
  have n': "n = nat (size_s (view st ob))" by (simp add: n)
  note D = well_shapedD[OF ws n']
  show "0 < n" by (rule D(1))
  show "size_s ob = int n" using D(2) by simp
  show L0: "length (sudoku ob) = n" using D(3) by simp
  show L1: "length (sudoku ob ! a) = n" if "a < n" for a
    using D(4)[OF that] that L0 by simp
  show L2: "length (sudoku ob ! a ! b) = n" if "a < n" "b < n" for a b
    using D(5)[OF that] that L0 L1 by simp
  show "length (st ! (sudoku ob ! a ! b ! c)) = n" if "a < n" "b < n" "c < n" for a b c
    using D(6)[OF that] that L0 L1 L2 by simp
qed

lemma ref_in_object:
  "a < length g \<Longrightarrow> b < length (g ! a) \<Longrightarrow> c < length (g ! a ! b) \<Longrightarrow>
   g ! a ! b ! c \<in> set (concat (concat g))"
  by (auto intro!: bexI[of _ "g ! a ! b"] bexI[of _ "g ! a"])

lemma set_cell_store_resolved:
  assumes "py_index g a = Some a'" "py_index (g ! a') b = Some b'"
    "py_index (g ! a' ! b') c = Some c'" "py_index (st ! (g ! a' ! b' ! c')) d = Some d'"
  shows "set_cell st g a b c d char
    = Inr (st[g ! a' ! b' ! c' := (st ! (g ! a' ! b' ! c'))[d' := char]])"
  using assms by (simp add: set_cell_def bind_err_def py_get_resolved py_set_resolved)

lemma insert_store_resolved:
  assumes vr: "valid_refs st (sudoku ob)" and ws: "well_shaped (view st ob)"
    and n: "n = nat (size_s ob)" and r: "r < n * n" and c: "c < n * n"
    and ix: "py_index (sudoku ob) ((line - 1) div size_s ob) = Some (r div n)"
      "py_index (sudoku ob) ((column - 1) div size_s ob) = Some (c div n)"
      "py_index (sudoku ob) ((line - 1) mod size_s ob) = Some (r mod n)"
      "py_index (sudoku ob) ((column - 1) mod size_s ob) = Some (c mod n)"
  shows "\<exists>st'. insert_into_cell st ob char column line True = (None, st')
     \<and> length st' = length st \<and> well_shaped (view st' ob)
     \<and> get_cell (view st' ob) (int c + 1) (int r + 1) = Inr char"
proof -
  note D = view_shapeD[OF ws n]
  let ?g = "sudoku ob"
  let ?addr = "?g ! (r div n) ! (c div n) ! (r mod n)"
  let ?st' = "st[?addr := (st ! ?addr)[c mod n := char]]"
  have b: "r div n < n" "c div n < n" "r mod n < n" "c mod n < n"
    using r c D(1) by (simp_all add: div_less_square)
  have "?addr \<in> set (concat (concat ?g))"
    by (rule ref_in_object) (simp_all add: b D(3-5))
  with vr have va: "?addr < length st" unfolding valid_refs_def by blast
  have sc: "set_cell st ?g ((line - 1) div size_s ob) ((column - 1) div size_s ob)
      ((line - 1) mod size_s ob) ((column - 1) mod size_s ob) char = Inr ?st'"
  proof (rule set_cell_store_resolved)
    show "py_index ?g ((line - 1) div size_s ob) = Some (r div n)" by (rule ix(1))
    show "py_index (?g ! (r div n)) ((column - 1) div size_s ob) = Some (c div n)"
      using ix(2) py_index_length_cong[of "?g ! (r div n)" ?g] b D(3,4) by simp
    show "py_index (?g ! (r div n) ! (c div n)) ((line - 1) mod size_s ob) = Some (r mod n)"
      using ix(3) py_index_length_cong[of "?g ! (r div n) ! (c div n)" ?g] b D(3,5) by simp
    show "py_index (st ! ?addr) ((column - 1) mod size_s ob) = Some (c mod n)"
      using ix(4) py_index_length_cong[of "st ! ?addr" ?g] b D(3,6) by simp
  qed
  have ins: "insert_into_cell st ob char column line True = (None, ?st')"
    using D(1) by (simp add: insert_into_cell_def D(2) sc[unfolded D(2)])
  have len: "\<forall>p. length (?st' ! p) = length (st ! p)"
    using va by (simp add: nth_list_update)
  have ws': "well_shaped (view ?st' ob)"
    using well_shaped_view_lengths[OF len, of ob] ws by simp
  have n': "n = nat (size_s (view ?st' ob))" by (simp add: n)
  have "cell (sudoku (view ?st' ob)) n r c = ?st' ! ?addr ! (c mod n)"
    using b by (simp add: cell_def D(3-5))
  also have "\<dots> = char" using va b(4) D(6)[OF b(1,2,3)] by simp
  finally have cl: "cell (sudoku (view ?st' ob)) n r c = char" .
  have "get_cell (view ?st' ob) (int c + 1) (int r + 1) = Inr char"
    using get_cell_eq[OF ws' n' r c] cl by simp
  then show ?thesis using ins ws' by simp
qed

lemma insert_store_frame:
  assumes us: "unshared (sudoku ob)" and vr: "valid_refs st (sudoku ob)"
    and ws: "well_shaped (view st ob)"
    and n: "n = nat (size_s ob)" and r: "r < n * n" and c: "c < n * n"
    and ix: "py_index (sudoku ob) ((line - 1) div size_s ob) = Some (r div n)"
      "py_index (sudoku ob) ((column - 1) div size_s ob) = Some (c div n)"
      "py_index (sudoku ob) ((line - 1) mod size_s ob) = Some (r mod n)"
      "py_index (sudoku ob) ((column - 1) mod size_s ob) = Some (c mod n)"
    and ins: "insert_into_cell st ob char column line True = (None, st')"
  shows "\<forall>column' line'. column' \<noteq> int c + 1 \<or> line' \<noteq> int r + 1 \<longrightarrow>
           get_cell (view st' ob) column' line' = get_cell (view st ob) column' line'"
proof -
  have n': "n = nat (size_s (view st ob))" by (simp add: n)
  have ixv: "py_index (sudoku (view st ob)) ((line - 1) div size_s (view st ob)) = Some (r div n)"
      "py_index (sudoku (view st ob)) ((column - 1) div size_s (view st ob)) = Some (c div n)"
      "py_index (sudoku (view st ob)) ((line - 1) mod size_s (view st ob)) = Some (r mod n)"
      "py_index (sudoku (view st ob)) ((column - 1) mod size_s (view st ob)) = Some (c mod n)"
    using ix py_index_length_cong[of "sudoku (view st ob)" "sudoku ob"] by simp_all
  from insert_resolved[OF ws n' r c ixv, of char]
  obtain s' where s': "insert_into_cell_unshared (view st ob) char column line True = (None, s')"
    "size_s s' = size_s (view st ob)" "well_shaped s'"
    "\<forall>r'<n * n. \<forall>c'<n * n.
       cell (sudoku s') n r' c' = (if r' = r \<and> c' = c then char else cell (sudoku (view st ob)) n r' c')"
    by blast
  from insert_into_cell_unshared_eq[OF us vr ins] s'(1) have e: "s' = view st' ob" by simp
  from get_cell_after_write(2)[OF ws s'(3) n' s'(2) r c s'(4)] show ?thesis unfolding e .
qed


lemma index_in_range:
  fixes g :: "'a list"
  assumes n: "0 < n" and len: "length g = n" and r: "r < n * n"
  shows "py_index g ((int r + 1 - 1) div int n) = Some (r div n)"
    "py_index g ((int r + 1 - 1) mod int n) = Some (r mod n)"
proof -
  have b: "r div n < n" "r mod n < n" using r n by (simp_all add: div_less_square)
  show "py_index g ((int r + 1 - 1) div int n) = Some (r div n)"
    using b by (simp add: zdiv_int[symmetric] py_index_nat len)
  show "py_index g ((int r + 1 - 1) mod int n) = Some (r mod n)"
    using b by (simp add: zmod_int[symmetric] py_index_nat len)
qed

lemma index_wrap:
  fixes g :: "'a list"
  assumes n: "0 < n" and len: "length g = n"
  shows "py_index g ((0 - 1) div int n) = Some ((n * n - 1) div n)"
    "py_index g ((0 - 1) mod int n) = Some ((n * n - 1) mod n)"
proof -
  note L = last_index[OF n]
  have ne: "g \<noteq> []" using n len by auto
  have last: "py_index g (int (n - 1)) = Some (n - 1)"
    by (rule py_index_nat) (use n len in simp)
  show "py_index g ((0 - 1) div int n) = Some ((n * n - 1) div n)"
    unfolding minus_one_div_mod[OF n] L using py_index_minus_one[OF ne] len by simp
  show "py_index g ((0 - 1) mod int n) = Some ((n * n - 1) mod n)"
    unfolding minus_one_div_mod[OF n] L by (rule last)
qed

lemma view_example_partial: "view example_partial_store example_object = example_partial"
  by (simp add: view_def example_partial_store_def example_object_def example_partial_def)

lemma valid_refs_example_partial: "valid_refs example_partial_store (sudoku example_object)"
  by (simp add: valid_refs_def example_partial_store_def example_object_def)

lemma unshared_example_object: "unshared (sudoku example_object)"
  by (simp add: unshared_def example_object_def)

text \<open>
  On the object whose inner lines are one list, a write is read back through every
  reference to that list: after \<^verbatim>\<open>insert_into_cell("1", 1, 1)\<close> the cells (3, 1) and
  (1, 2) hold \<open>1\<close> as well.
\<close>

lemma shared_lines_change_together:
  "well_shaped (view shared_store shared_object)
   \<and> get_cell (view shared_store shared_object) 3 1 = Inr ''#''
   \<and> (case insert_into_cell shared_store shared_object ''1'' 1 1 False of
        (r, st') \<Rightarrow> r = None \<and> get_cell (view st' shared_object) 1 1 = Inr ''1''
          \<and> get_cell (view st' shared_object) 3 1 = Inr ''1''
          \<and> get_cell (view st' shared_object) 1 2 = Inr ''1'')"
  by (simp add: well_shaped_def view_def shared_store_def shared_object_def) code_simp

lemma insert_wraps_column:
  assumes vr: "valid_refs st (sudoku self)" and ws: "well_shaped (view st self)"
    and rng: "1 \<le> k" "k \<le> size_s self ^ 2"
  shows "get_cell (view st self) 0 k = Inl RequestOutOfBounds
     \<and> (\<exists>st'. insert_into_cell st self char 0 k True = (None, st')
           \<and> get_cell (view st' self) (size_s self ^ 2) k = Inr char
           \<and> (unshared (sudoku self) \<longrightarrow>
                (\<forall>c l. c \<noteq> size_s self ^ 2 \<or> l \<noteq> k \<longrightarrow>
                   get_cell (view st' self) c l = get_cell (view st self) c l)))"
proof -
  define n where "n = nat (size_s self)"
  have n': "n = nat (size_s (view st self))" by (simp add: n_def)
  note D = view_shapeD[OF ws n_def]
  note L = last_index[OF D(1)]
  have rng': "1 \<le> k" "k \<le> size_s (view st self) ^ 2" using rng by simp_all
  from coordE[OF ws n' rng'] obtain r where r: "k = int r + 1" "r < n * n" .
  have sq: "size_s self ^ 2 = int (n * n - 1) + 1"
    using D(1) by (simp add: D(2) power2_eq_square of_nat_diff)
  have ix: "py_index (sudoku self) ((k - 1) div size_s self) = Some (r div n)"
    "py_index (sudoku self) ((0 - 1) div size_s self) = Some ((n * n - 1) div n)"
    "py_index (sudoku self) ((k - 1) mod size_s self) = Some (r mod n)"
    "py_index (sudoku self) ((0 - 1) mod size_s self) = Some ((n * n - 1) mod n)"
    unfolding D(2) r(1)
    using index_in_range[OF D(1) D(3) r(2)] index_wrap[OF D(1) D(3)] by simp_all
  from insert_store_resolved[OF vr ws n_def r(2) L(1) ix, of char]
  obtain st' where st': "insert_into_cell st self char 0 k True = (None, st')"
    "get_cell (view st' self) (size_s self ^ 2) k = Inr char"
    unfolding sq[symmetric] r(1)[symmetric] by blast
  have fr: "\<forall>c l. c \<noteq> size_s self ^ 2 \<or> l \<noteq> k \<longrightarrow>
              get_cell (view st' self) c l = get_cell (view st self) c l"
    if us: "unshared (sudoku self)"
    using insert_store_frame[OF us vr ws n_def r(2) L(1) ix st'(1)]
    unfolding sq[symmetric] r(1)[symmetric] .
  have "get_cell (view st self) 0 k = Inl RequestOutOfBounds"
    by (rule get_cell_out_of_range) simp
  then show ?thesis using st' fr by blast
qed

lemma insert_wraps_line:
  assumes vr: "valid_refs st (sudoku self)" and ws: "well_shaped (view st self)"
    and rng: "1 \<le> k" "k \<le> size_s self ^ 2"
  shows "get_cell (view st self) k 0 = Inl RequestOutOfBounds
     \<and> (\<exists>st'. insert_into_cell st self char k 0 True = (None, st')
           \<and> get_cell (view st' self) k (size_s self ^ 2) = Inr char
           \<and> (unshared (sudoku self) \<longrightarrow>
                (\<forall>c l. c \<noteq> k \<or> l \<noteq> size_s self ^ 2 \<longrightarrow>
                   get_cell (view st' self) c l = get_cell (view st self) c l)))"
proof -
  define n where "n = nat (size_s self)"
  have n': "n = nat (size_s (view st self))" by (simp add: n_def)
  note D = view_shapeD[OF ws n_def]
  note L = last_index[OF D(1)]
  have rng': "1 \<le> k" "k \<le> size_s (view st self) ^ 2" using rng by simp_all
  from coordE[OF ws n' rng'] obtain c where c: "k = int c + 1" "c < n * n" .
  have sq: "size_s self ^ 2 = int (n * n - 1) + 1"
    using D(1) by (simp add: D(2) power2_eq_square of_nat_diff)
  have ix: "py_index (sudoku self) ((0 - 1) div size_s self) = Some ((n * n - 1) div n)"
    "py_index (sudoku self) ((k - 1) div size_s self) = Some (c div n)"
    "py_index (sudoku self) ((0 - 1) mod size_s self) = Some ((n * n - 1) mod n)"
    "py_index (sudoku self) ((k - 1) mod size_s self) = Some (c mod n)"
    unfolding D(2) c(1)
    using index_in_range[OF D(1) D(3) c(2)] index_wrap[OF D(1) D(3)] by simp_all
  from insert_store_resolved[OF vr ws n_def L(1) c(2) ix, of char]
  obtain st' where st': "insert_into_cell st self char k 0 True = (None, st')"
    "get_cell (view st' self) k (size_s self ^ 2) = Inr char"
    unfolding sq[symmetric] c(1)[symmetric] by blast
  have fr: "\<forall>c' l. c' \<noteq> k \<or> l \<noteq> size_s self ^ 2 \<longrightarrow>
              get_cell (view st' self) c' l = get_cell (view st self) c' l"
    if us: "unshared (sudoku self)"
    using insert_store_frame[OF us vr ws n_def L(1) c(2) ix st'(1)]
    unfolding sq[symmetric] c(1)[symmetric] .
  have "get_cell (view st self) k 0 = Inl RequestOutOfBounds"
    by (rule get_cell_out_of_range) simp
  then show ?thesis using st' fr by blast
qed


section \<open>The claims\<close>

text \<open>
  C1.  When the constructor is called without an architecture and with a size from 2 to
  7, and it returns an object \<open>s\<close> (the generation loops end under the random source
  \<open>rs\<close>), then \<open>s\<close> has that size and the first \<open>size\<^sup>2\<close> symbols as its alphabet, its grid
  is well shaped, no cell holds the empty marker \<open>#\<close>, and every line, every column and
  every square is a permutation of the alphabet.
\<close>

theorem generated_grid_is_solved:
  assumes "2 \<le> size'" "size' \<le> 7" "Sudoku_init size' [] rs = Some (Inr (s, rs'))"
  shows "size_s s = size' \<and> chars s = alphabet size'
     \<and> length (chars s) = nat (size' ^ 2) \<and> well_shaped s \<and> solved s"
  using assms by (rule Sudoku_init_solved)

theorem generated_grid_is_solved_witness:
  "(2::int) \<le> 2 \<and> (2::int) \<le> 7
   \<and> Sudoku_init 2 [] example_rs = Some (Inr (example_solved, []))
   \<and> size_s example_solved = 2 \<and> chars example_solved = alphabet 2
   \<and> well_shaped example_solved \<and> solved example_solved"
  using generated_grid_is_solved[of 2 example_rs example_solved "[]"] example_run by simp

text \<open>
  C4.  For an object in a store that has the documented shape, a position in range and
  a one-character symbol of the alphabet, \<open>insert_into_cell\<close> with \<open>no_check = False\<close>
  raises \<open>IllegalMove\<close> and leaves the store as it was, so that every cell of every grid
  is unchanged, when the symbol is in the line, the column or the square of the position.
  Otherwise it returns and the addressed cell then holds the symbol; when the object is
  unshared, every other cell of it reads as before.
\<close>

theorem insert_into_cell_checked:
  assumes vr: "valid_refs st (sudoku self)" and ws: "well_shaped (view st self)"
    and ch: "length char = 1" "char \<in> set (chars self)"
    and rng: "1 \<le> column" "column \<le> size_s self ^ 2" "1 \<le> line" "line \<le> size_s self ^ 2"
  shows "\<exists>line_elements column_elements square_elements.
       get_line_elements (view st self) line = Inr line_elements
     \<and> get_column_elements (view st self) column = Inr column_elements
     \<and> get_square_elements (view st self) ((column - 1) div size_s self + 1)
          ((line - 1) div size_s self + 1) = Inr square_elements
     \<and> (if char \<in> set line_elements \<union> set column_elements \<union> set square_elements
        then insert_into_cell st self char column line False = (Some IllegalMove, st)
        else \<exists>st'. insert_into_cell st self char column line False = (None, st')
             \<and> get_cell (view st' self) column line = Inr char
             \<and> (unshared (sudoku self) \<longrightarrow>
                  (\<forall>c l. c \<noteq> column \<or> l \<noteq> line \<longrightarrow>
                     get_cell (view st' self) c l = get_cell (view st self) c l))
             \<and> length st' = length st \<and> well_shaped (view st' self))"
proof -
  define n where "n = nat (size_s self)"
  have n': "n = nat (size_s (view st self))" by (simp add: n_def)
  note D = view_shapeD[OF ws n_def]
  have rng': "1 \<le> column" "column \<le> size_s (view st self) ^ 2"
    "1 \<le> line" "line \<le> size_s (view st self) ^ 2"
    using rng by simp_all
  from coordE[OF ws n' rng'(1,2)] obtain c where c: "column = int c + 1" "c < n * n" .
  from coordE[OF ws n' rng'(3,4)] obtain r where r: "line = int r + 1" "r < n * n" .
  have b: "r div n < n" "c div n < n" using r c by (simp_all add: div_less_square)
  have cl: "column - 1 = int c" "line - 1 = int r" by (simp_all add: c r)
  have dm: "int r div int n = int (r div n)" "int c div int n = int (c div n)"
    by (simp_all add: zdiv_int)
  let ?s = "view st self"
  have g2: "get_line_elements ?s line = Inr (map (\<lambda>c. cell (sudoku ?s) n r c) [0..<n * n])"
    unfolding r by (rule get_line_elements_eq[OF ws n' r(2)])
  have g3: "get_column_elements ?s column = Inr (map (\<lambda>r. cell (sudoku ?s) n r c) [0..<n * n])"
    unfolding c by (rule get_column_elements_eq[OF ws n' c(2)])
  have "get_square_elements ?s ((column - 1) div size_s ?s + 1) ((line - 1) div size_s ?s + 1)
      = Inr (map (\<lambda>j. cell (sudoku ?s) n (r div n * n + j div n) (c div n * n + j mod n))
              [0..<n * n])"
    unfolding cl well_shapedD(2)[OF ws n'] dm by (rule get_square_elements_eq[OF ws n' b(1,2)])
  then have g4: "get_square_elements ?s ((column - 1) div size_s self + 1)
      ((line - 1) div size_s self + 1)
      = Inr (map (\<lambda>j. cell (sudoku ?s) n (r div n * n + j div n) (c div n * n + j mod n))
              [0..<n * n])"
    by simp
  obtain le ce se where g: "get_line_elements ?s line = Inr le"
    "get_column_elements ?s column = Inr ce"
    "get_square_elements ?s ((column - 1) div size_s self + 1) ((line - 1) div size_s self + 1)
       = Inr se"
    using g2 g3 g4 by blast
  have v: "is_violating ?s char column line = Inr (char \<in> set le \<union> set ce \<union> set se)"
    by (rule is_violating_by_lists[OF g(1,2) _ ch(1)]) (use g(3) ch(2) in simp_all)
  have ix: "py_index (sudoku self) ((line - 1) div size_s self) = Some (r div n)"
      "py_index (sudoku self) ((column - 1) div size_s self) = Some (c div n)"
      "py_index (sudoku self) ((line - 1) mod size_s self) = Some (r mod n)"
      "py_index (sudoku self) ((column - 1) mod size_s self) = Some (c mod n)"
    unfolding D(2) r(1) c(1)
    using index_in_range[OF D(1) D(3) r(2)] index_in_range[OF D(1) D(3) c(2)] by simp_all
  have branch: "if char \<in> set le \<union> set ce \<union> set se
        then insert_into_cell st self char column line False = (Some IllegalMove, st)
        else \<exists>st'. insert_into_cell st self char column line False = (None, st')
             \<and> get_cell (view st' self) column line = Inr char
             \<and> (unshared (sudoku self) \<longrightarrow>
                  (\<forall>c l. c \<noteq> column \<or> l \<noteq> line \<longrightarrow>
                     get_cell (view st' self) c l = get_cell (view st self) c l))
             \<and> length st' = length st \<and> well_shaped (view st' self)"
  proof (cases "char \<in> set le \<union> set ce \<union> set se")
    case True
    then show ?thesis by (simp add: insert_into_cell_def v)
  next
    case False
    then have same: "insert_into_cell st self char column line False
        = insert_into_cell st self char column line True"
      by (simp add: insert_into_cell_def v)
    from insert_store_resolved[OF vr ws n_def r(2) c(2) ix, of char]
    obtain st' where st': "insert_into_cell st self char column line True = (None, st')"
      "length st' = length st" "well_shaped (view st' self)"
      "get_cell (view st' self) column line = Inr char"
      unfolding c(1)[symmetric] r(1)[symmetric] by blast
    have fr: "\<forall>c' l'. c' \<noteq> column \<or> l' \<noteq> line \<longrightarrow>
                get_cell (view st' self) c' l' = get_cell (view st self) c' l'"
      if us: "unshared (sudoku self)"
      using insert_store_frame[OF us vr ws n_def r(2) c(2) ix st'(1)]
      unfolding c(1)[symmetric] r(1)[symmetric] .
    show ?thesis
      using False same st' fr by auto
  qed
  show ?thesis using g branch by blast
qed

theorem insert_into_cell_checked_witness:
  "valid_refs example_partial_store (sudoku example_object)
   \<and> well_shaped (view example_partial_store example_object)
   \<and> length ''1'' = 1 \<and> ''1'' \<in> set (chars example_object)
   \<and> length ''2'' = 1 \<and> ''2'' \<in> set (chars example_object)
   \<and> (1::int) \<le> 2 \<and> 2 \<le> size_s example_object ^ 2
   \<and> (1::int) \<le> 1 \<and> 1 \<le> size_s example_object ^ 2
   \<and> get_line_elements (view example_partial_store example_object) 1
        = Inr [''1'', ''#'', ''#'', ''#'']
   \<and> insert_into_cell example_partial_store example_object ''1'' 2 1 False
        = (Some IllegalMove, example_partial_store)
   \<and> unshared (sudoku example_object)
   \<and> (\<exists>st'. insert_into_cell example_partial_store example_object ''2'' 2 1 False = (None, st')
         \<and> get_cell (view st' example_object) 2 1 = Inr ''2''
         \<and> get_cell (view st' example_object) 1 1 = Inr ''1'')"
proof -
  let ?st = example_partial_store and ?ob = example_object
  note vr = valid_refs_example_partial
  have ws: "well_shaped (view ?st ?ob)"
    unfolding view_example_partial by (rule well_shaped_example_partial)
  have h: "length ''1'' = 1" "''1'' \<in> set (chars ?ob)"
    "length ''2'' = 1" "''2'' \<in> set (chars ?ob)"
    "(1::int) \<le> 2" "2 \<le> size_s ?ob ^ 2"
    "(1::int) \<le> 1" "1 \<le> size_s ?ob ^ 2"
    by (simp_all add: example_object_def)
  have e: "get_line_elements (view ?st ?ob) 1 = Inr [''1'', ''#'', ''#'', ''#'']"
    "get_column_elements (view ?st ?ob) 2 = Inr [''#'', ''#'', ''#'', ''#'']"
    "get_square_elements (view ?st ?ob) ((2 - 1) div size_s ?ob + 1) ((1 - 1) div size_s ?ob + 1)
       = Inr [''1'', ''#'', ''#'', ''#'']"
    "get_cell (view ?st ?ob) 1 1 = Inr ''1''"
    unfolding view_example_partial by code_simp+
  from insert_into_cell_checked[OF vr ws h(1,2,5,6,7,8)]
  obtain le ce se where A: "get_line_elements (view ?st ?ob) 1 = Inr le" and
    B: "if ''1'' \<in> set le \<union> set ce \<union> set se
     then insert_into_cell ?st ?ob ''1'' 2 1 False = (Some IllegalMove, ?st)
     else \<exists>st'. insert_into_cell ?st ?ob ''1'' 2 1 False = (None, st')
          \<and> get_cell (view st' ?ob) 2 1 = Inr ''1''
          \<and> (unshared (sudoku ?ob) \<longrightarrow>
               (\<forall>c l. c \<noteq> 2 \<or> l \<noteq> 1 \<longrightarrow> get_cell (view st' ?ob) c l = get_cell (view ?st ?ob) c l))
          \<and> length st' = length ?st \<and> well_shaped (view st' ?ob)"
    by blast
  from A e(1) have "''1'' \<in> set le \<union> set ce \<union> set se" by auto
  with B have r1: "insert_into_cell ?st ?ob ''1'' 2 1 False = (Some IllegalMove, ?st)"
    by (simp only: if_True)
  from insert_into_cell_checked[OF vr ws h(3,4,5,6,7,8)]
  obtain le ce se where A2: "get_line_elements (view ?st ?ob) 1 = Inr le"
    "get_column_elements (view ?st ?ob) 2 = Inr ce"
    "get_square_elements (view ?st ?ob) ((2 - 1) div size_s ?ob + 1) ((1 - 1) div size_s ?ob + 1)
       = Inr se" and
    B2: "if ''2'' \<in> set le \<union> set ce \<union> set se
     then insert_into_cell ?st ?ob ''2'' 2 1 False = (Some IllegalMove, ?st)
     else \<exists>st'. insert_into_cell ?st ?ob ''2'' 2 1 False = (None, st')
          \<and> get_cell (view st' ?ob) 2 1 = Inr ''2''
          \<and> (unshared (sudoku ?ob) \<longrightarrow>
               (\<forall>c l. c \<noteq> 2 \<or> l \<noteq> 1 \<longrightarrow> get_cell (view st' ?ob) c l = get_cell (view ?st ?ob) c l))
          \<and> length st' = length ?st \<and> well_shaped (view st' ?ob)"
    by blast
  from A2 e(1,2,3) have "''2'' \<notin> set le \<union> set ce \<union> set se" by auto
  with B2 obtain st' where st': "insert_into_cell ?st ?ob ''2'' 2 1 False = (None, st')"
    "get_cell (view st' ?ob) 2 1 = Inr ''2''"
    "unshared (sudoku ?ob) \<longrightarrow>
       (\<forall>c l. c \<noteq> 2 \<or> l \<noteq> 1 \<longrightarrow> get_cell (view st' ?ob) c l = get_cell (view ?st ?ob) c l)"
    by (simp only: if_False) blast
  from st'(3) unshared_example_object
  have "get_cell (view st' ?ob) 1 1 = get_cell (view ?st ?ob) 1 1" by simp
  with e(4) have r2: "get_cell (view st' ?ob) 1 1 = Inr ''1''" by simp
  have "\<exists>st'. insert_into_cell ?st ?ob ''2'' 2 1 False = (None, st')
         \<and> get_cell (view st' ?ob) 2 1 = Inr ''2''
         \<and> get_cell (view st' ?ob) 1 1 = Inr ''1''"
    using st'(1,2) r2 by blast
  then show ?thesis using vr ws h e(1) r1 unshared_example_object by blast
qed


text \<open>
  C5.  On a well-shaped grid, for a position in range and a one-character symbol of the
  alphabet, \<open>is_violating\<close> returns whether some cell of the line, of the column, or of
  the square of the position holds the symbol.  Nothing else enters the result: a
  target cell that holds another symbol does not make the call return true (in the
  witness the target holds \<open>1\<close>, the symbol is \<open>2\<close>, and the result is false).
\<close>

theorem is_violating_iff_symbol_present:
  assumes "well_shaped s" "length char = 1" "char \<in> set (chars s)"
    "1 \<le> column" "column \<le> size_s s ^ 2" "1 \<le> line" "line \<le> size_s s ^ 2"
  shows "is_violating s char column line = Inr (
       (\<exists>c\<in>{1..size_s s ^ 2}. get_cell s c line = Inr char)
     \<or> (\<exists>l\<in>{1..size_s s ^ 2}. get_cell s column l = Inr char)
     \<or> (\<exists>c\<in>{1..size_s s ^ 2}. \<exists>l\<in>{1..size_s s ^ 2}.
           (c - 1) div size_s s = (column - 1) div size_s s
         \<and> (l - 1) div size_s s = (line - 1) div size_s s
         \<and> get_cell s c l = Inr char))"
  using assms by (rule is_violating_by_cells)

theorem is_violating_iff_symbol_present_witness:
  "well_shaped example_partial \<and> length ''2'' = 1 \<and> ''2'' \<in> set (chars example_partial)
   \<and> (1::int) \<le> 1 \<and> 1 \<le> size_s example_partial ^ 2
   \<and> get_cell example_partial 1 1 = Inr ''1''
   \<and> is_violating example_partial ''2'' 1 1 = Inr False
   \<and> \<not> ((\<exists>c\<in>{1..size_s example_partial ^ 2}. get_cell example_partial c 1 = Inr ''2'')
     \<or> (\<exists>l\<in>{1..size_s example_partial ^ 2}. get_cell example_partial 1 l = Inr ''2'')
     \<or> (\<exists>c\<in>{1..size_s example_partial ^ 2}. \<exists>l\<in>{1..size_s example_partial ^ 2}.
           (c - 1) div size_s example_partial = (1 - 1) div size_s example_partial
         \<and> (l - 1) div size_s example_partial = (1 - 1) div size_s example_partial
         \<and> get_cell example_partial c l = Inr ''2''))"
proof -
  have h: "length ''2'' = 1" "''2'' \<in> set (chars example_partial)"
    "(1::int) \<le> 1" "1 \<le> size_s example_partial ^ 2"
    by (simp_all add: example_partial_def)
  have e: "get_cell example_partial 1 1 = Inr ''1''"
    "is_violating example_partial ''2'' 1 1 = Inr False"
    by code_simp+
  from is_violating_iff_symbol_present[OF well_shaped_example_partial h(1,2,3,4,3,4)] e(2)
  have "\<not> ((\<exists>c\<in>{1..size_s example_partial ^ 2}. get_cell example_partial c 1 = Inr ''2'')
     \<or> (\<exists>l\<in>{1..size_s example_partial ^ 2}. get_cell example_partial 1 l = Inr ''2'')
     \<or> (\<exists>c\<in>{1..size_s example_partial ^ 2}. \<exists>l\<in>{1..size_s example_partial ^ 2}.
           (c - 1) div size_s example_partial = (1 - 1) div size_s example_partial
         \<and> (l - 1) div size_s example_partial = (1 - 1) div size_s example_partial
         \<and> get_cell example_partial c l = Inr ''2''))"
    unfolding e(2) by (simp only: sum.inject simp_thms)
  then show ?thesis using h e well_shaped_example_partial by blast
qed

text \<open>
  C6.  On a well-shaped grid and for a position in range, \<open>get_cell\<close> returns the element
  of \<open>get_line_elements line\<close> at index \<open>column - 1\<close>, the element of
  \<open>get_column_elements column\<close> at index \<open>line - 1\<close>, and the element of the square
  \<open>((column - 1) div size + 1, (line - 1) div size + 1)\<close> at index
  \<open>((line - 1) mod size) * size + (column - 1) mod size\<close>.
\<close>

theorem get_cell_agrees_with_groups:
  assumes "well_shaped s" "1 \<le> column" "column \<le> size_s s ^ 2"
    "1 \<le> line" "line \<le> size_s s ^ 2"
  shows "\<exists>v line_elements column_elements square_elements.
       get_cell s column line = Inr v
     \<and> get_line_elements s line = Inr line_elements
     \<and> py_get line_elements (column - 1) = Inr v
     \<and> get_column_elements s column = Inr column_elements
     \<and> py_get column_elements (line - 1) = Inr v
     \<and> get_square_elements s ((column - 1) div size_s s + 1) ((line - 1) div size_s s + 1)
          = Inr square_elements
     \<and> py_get square_elements
          (((line - 1) mod size_s s) * size_s s + (column - 1) mod size_s s) = Inr v"
proof -
  define n where "n = nat (size_s s)"
  note ws = assms(1)
  note D = well_shapedD[OF ws n_def]
  from coordE[OF ws n_def assms(2,3)] obtain c where c: "column = int c + 1" "c < n * n" .
  from coordE[OF ws n_def assms(4,5)] obtain r where r: "line = int r + 1" "r < n * n" .
  have b: "r div n < n" "c div n < n" "r mod n < n" "c mod n < n"
    using r c D(1) by (simp_all add: div_less_square)
  have dm: "int r div int n = int (r div n)" "int r mod int n = int (r mod n)"
    "int c div int n = int (c div n)" "int c mod int n = int (c mod n)"
    by (simp_all add: zdiv_int zmod_int)
  let ?j = "(r mod n) * n + c mod n"
  have "?j < (r mod n) * n + n" using b by simp
  also have "\<dots> = (r mod n + 1) * n" by simp
  also have "\<dots> \<le> n * n" using b(3) by (metis Suc_eq_plus1 Suc_leI mult_le_mono1)
  finally have j: "?j < n * n" .
  have jd: "?j div n = r mod n" "?j mod n = c mod n" using b by simp_all
  have pos: "r div n * n + r mod n = r" "c div n * n + c mod n = c"
    by (metis div_mult_mod_eq)+
  have off: "int r mod int n * int n + int c mod int n = int ?j" by (simp add: dm)
  have 1: "py_get (map (\<lambda>c. cell (sudoku s) n r c) [0..<n * n]) (int c) = Inr (cell (sudoku s) n r c)"
    using c(2) by (simp add: py_get_nat)
  have 2: "py_get (map (\<lambda>r. cell (sudoku s) n r c) [0..<n * n]) (int r) = Inr (cell (sudoku s) n r c)"
    using r(2) by (simp add: py_get_nat)
  have 3: "py_get (map (\<lambda>j. cell (sudoku s) n (r div n * n + j div n) (c div n * n + j mod n))
              [0..<n * n]) (int ?j) = Inr (cell (sudoku s) n r c)"
    using j by (simp add: py_get_nat jd pos del: of_nat_add of_nat_mult)
  have cl: "column - 1 = int c" "line - 1 = int r" by (simp_all add: c r)
  have g1: "get_cell s column line = Inr (cell (sudoku s) n r c)"
    unfolding c r by (rule get_cell_eq[OF ws n_def r(2) c(2)])
  have g2: "get_line_elements s line = Inr (map (\<lambda>c. cell (sudoku s) n r c) [0..<n * n])"
    unfolding r by (rule get_line_elements_eq[OF ws n_def r(2)])
  have g3: "get_column_elements s column = Inr (map (\<lambda>r. cell (sudoku s) n r c) [0..<n * n])"
    unfolding c by (rule get_column_elements_eq[OF ws n_def c(2)])
  have g4: "get_square_elements s ((column - 1) div size_s s + 1) ((line - 1) div size_s s + 1)
      = Inr (map (\<lambda>j. cell (sudoku s) n (r div n * n + j div n) (c div n * n + j mod n))
              [0..<n * n])"
    unfolding cl D(2) dm by (rule get_square_elements_eq[OF ws n_def b(1,2)])
  have o: "(line - 1) mod size_s s * size_s s + (column - 1) mod size_s s = int ?j"
    unfolding cl D(2) by (rule off)
  show ?thesis
    apply (rule exI[of _ "cell (sudoku s) n r c"])
    apply (rule exI[of _ "map (\<lambda>c. cell (sudoku s) n r c) [0..<n * n]"])
    apply (rule exI[of _ "map (\<lambda>r. cell (sudoku s) n r c) [0..<n * n]"])
    apply (rule exI[of _ "map (\<lambda>j. cell (sudoku s) n (r div n * n + j div n)
                                   (c div n * n + j mod n)) [0..<n * n]"])
    unfolding cl
    apply (intro conjI)
          apply (rule g1)
         apply (rule g2)
        apply (rule 1)
       apply (rule g3)
      apply (rule 2)
     apply (rule g4[unfolded cl])
    apply (subst o[unfolded cl])
    apply (rule 3)
    done
qed

theorem get_cell_agrees_with_groups_witness:
  "well_shaped example_solved \<and> (1::int) \<le> 3 \<and> 3 \<le> size_s example_solved ^ 2
   \<and> (1::int) \<le> 2 \<and> 2 \<le> size_s example_solved ^ 2
   \<and> get_cell example_solved 3 2 = Inr ''1''
   \<and> get_line_elements example_solved 2 = Inr [''3'', ''4'', ''1'', ''2'']
   \<and> get_column_elements example_solved 3 = Inr [''3'', ''1'', ''4'', ''2'']
   \<and> get_square_elements example_solved 2 1 = Inr [''3'', ''4'', ''1'', ''2'']
   \<and> py_get [''3'', ''4'', ''1'', ''2''] ((2 - 1) mod 2 * 2 + (3 - 1) mod 2) = Inr ''1''"
proof -
  have e: "get_cell example_solved 3 2 = Inr ''1''"
    "get_line_elements example_solved 2 = Inr [''3'', ''4'', ''1'', ''2'']"
    "get_column_elements example_solved 3 = Inr [''3'', ''1'', ''4'', ''2'']"
    "get_square_elements example_solved 2 1 = Inr [''3'', ''4'', ''1'', ''2'']"
    by code_simp+
  have h: "(1::int) \<le> 3" "3 \<le> size_s example_solved ^ 2" "(1::int) \<le> 2"
    "2 \<le> size_s example_solved ^ 2"
    by (simp_all add: example_solved_def)
  from get_cell_agrees_with_groups[OF well_shaped_example_solved h]
  obtain v square_elements where
    "get_cell example_solved 3 2 = Inr v"
    "get_square_elements example_solved ((3 - 1) div size_s example_solved + 1)
        ((2 - 1) div size_s example_solved + 1) = Inr square_elements"
    "py_get square_elements
        ((2 - 1) mod size_s example_solved * size_s example_solved
          + (3 - 1) mod size_s example_solved) = Inr v"
    by blast
  moreover have "size_s example_solved = 2" by (simp add: example_solved_def)
  ultimately have "py_get [''3'', ''4'', ''1'', ''2''] ((2 - 1) mod 2 * 2 + (3 - 1) mod 2) = Inr ''1''"
    using e(1,4) by simp
  then show ?thesis using e h well_shaped_example_solved by blast
qed

text \<open>
  C7.  Called without an architecture, the constructor raises \<open>IncorrectSize\<close> with the
  given value for every size outside 2 to 7, whatever the random source is; for a size
  from 2 to 7 it does not raise \<open>IncorrectSize\<close>.
\<close>

theorem constructor_size_check:
  "(\<not> (2 \<le> size' \<and> size' \<le> 7) \<longrightarrow>
      Sudoku_init size' [] rs = Some (Inl (IncorrectSize size')))
   \<and> (2 \<le> size' \<and> size' \<le> 7 \<longrightarrow>
      (\<forall>k. Sudoku_init size' [] rs \<noteq> Some (Inl (IncorrectSize k))))"
proof (intro conjI impI allI)
  assume "\<not> (2 \<le> size' \<and> size' \<le> 7)"
  then show "Sudoku_init size' [] rs = Some (Inl (IncorrectSize size'))"
    by (auto simp: Sudoku_init_def)
next
  fix k assume "2 \<le> size' \<and> size' \<le> 7"
  then have e: "Sudoku_init size' [] rs
      = line_loop \<lparr>size_s = size', sudoku = empty_grid size', chars = alphabet size'\<rparr>
          (replicate (nat (size' ^ 4)) (alphabet size')) 1 1 0 rs"
    by (simp add: Sudoku_init_def Let_def)
  show "Sudoku_init size' [] rs \<noteq> Some (Inl (IncorrectSize k))"
    unfolding e using line_loop_error by blast
qed

theorem constructor_size_check_witness:
  "\<not> (2 \<le> (8::int) \<and> (8::int) \<le> 7)
   \<and> Sudoku_init 8 [] example_rs = Some (Inl (IncorrectSize 8))
   \<and> Sudoku_init 1 [] example_rs = Some (Inl (IncorrectSize 1))
   \<and> Sudoku_init (- 3) [] example_rs = Some (Inl (IncorrectSize (- 3)))
   \<and> (2 \<le> (2::int) \<and> (2::int) \<le> 7)
   \<and> Sudoku_init 2 [] example_rs \<noteq> Some (Inl (IncorrectSize 2))"
  using constructor_size_check[of 8 example_rs] constructor_size_check[of 1 example_rs]
    constructor_size_check[of "- 3" example_rs] constructor_size_check[of 2 example_rs]
  by simp

text \<open>
  C10.  \<open>insert_into_cell\<close> checks no bounds: for an object of the documented shape,
  with \<open>no_check = True\<close> and column 0 (or line 0), a position for which \<open>get_cell\<close>
  raises \<open>RequestOutOfBounds\<close>, the call returns and the symbol is in the last column
  (the last line) of the addressed line (column).  When the object is unshared, no other
  cell of it has changed.
\<close>

theorem insert_into_cell_unchecked_wraps:
  assumes "valid_refs st (sudoku self)" "well_shaped (view st self)"
    "1 \<le> k" "k \<le> size_s self ^ 2"
  shows "get_cell (view st self) 0 k = Inl RequestOutOfBounds
     \<and> (\<exists>st'. insert_into_cell st self char 0 k True = (None, st')
           \<and> get_cell (view st' self) (size_s self ^ 2) k = Inr char
           \<and> (unshared (sudoku self) \<longrightarrow>
                (\<forall>c l. c \<noteq> size_s self ^ 2 \<or> l \<noteq> k \<longrightarrow>
                   get_cell (view st' self) c l = get_cell (view st self) c l)))
     \<and> get_cell (view st self) k 0 = Inl RequestOutOfBounds
     \<and> (\<exists>st'. insert_into_cell st self char k 0 True = (None, st')
           \<and> get_cell (view st' self) k (size_s self ^ 2) = Inr char
           \<and> (unshared (sudoku self) \<longrightarrow>
                (\<forall>c l. c \<noteq> k \<or> l \<noteq> size_s self ^ 2 \<longrightarrow>
                   get_cell (view st' self) c l = get_cell (view st self) c l)))"
  using insert_wraps_column[OF assms] insert_wraps_line[OF assms] by blast

theorem insert_into_cell_unchecked_wraps_witness:
  "valid_refs example_partial_store (sudoku example_object)
   \<and> well_shaped (view example_partial_store example_object)
   \<and> (1::int) \<le> 1 \<and> 1 \<le> size_s example_object ^ 2
   \<and> unshared (sudoku example_object)
   \<and> get_cell (view example_partial_store example_object) 0 1 = Inl RequestOutOfBounds
   \<and> (\<exists>st'. insert_into_cell example_partial_store example_object ''3'' 0 1 True = (None, st')
         \<and> get_cell (view st' example_object) 4 1 = Inr ''3''
         \<and> get_cell (view st' example_object) 1 1 = Inr ''1'')
   \<and> get_cell (view example_partial_store example_object) 1 0 = Inl RequestOutOfBounds
   \<and> (\<exists>st'. insert_into_cell example_partial_store example_object ''3'' 1 0 True = (None, st')
         \<and> get_cell (view st' example_object) 1 4 = Inr ''3''
         \<and> get_cell (view st' example_object) 1 1 = Inr ''1'')"
proof -
  let ?st = example_partial_store and ?ob = example_object
  note vr = valid_refs_example_partial
  note us = unshared_example_object
  have ws: "well_shaped (view ?st ?ob)"
    unfolding view_example_partial by (rule well_shaped_example_partial)
  have h: "(1::int) \<le> 1" "1 \<le> size_s ?ob ^ 2" "size_s ?ob ^ 2 = 4"
    by (simp_all add: example_object_def)
  have e: "get_cell (view ?st ?ob) 1 1 = Inr ''1''"
    unfolding view_example_partial by code_simp
  note X = insert_into_cell_unchecked_wraps[OF vr ws h(1,2), of "''3''", unfolded h(3)]
  from X obtain st1 where st1: "insert_into_cell ?st ?ob ''3'' 0 1 True = (None, st1)"
    "get_cell (view st1 ?ob) 4 1 = Inr ''3''"
    "unshared (sudoku ?ob) \<longrightarrow> (\<forall>c l. c \<noteq> 4 \<or> l \<noteq> 1 \<longrightarrow>
        get_cell (view st1 ?ob) c l = get_cell (view ?st ?ob) c l)"
    by blast
  from st1(3) us have "get_cell (view st1 ?ob) 1 1 = get_cell (view ?st ?ob) 1 1" by simp
  with e have a1: "get_cell (view st1 ?ob) 1 1 = Inr ''1''" by simp
  from X obtain st2 where st2: "insert_into_cell ?st ?ob ''3'' 1 0 True = (None, st2)"
    "get_cell (view st2 ?ob) 1 4 = Inr ''3''"
    "unshared (sudoku ?ob) \<longrightarrow> (\<forall>c l. c \<noteq> 1 \<or> l \<noteq> 4 \<longrightarrow>
        get_cell (view st2 ?ob) c l = get_cell (view ?st ?ob) c l)"
    by blast
  from st2(3) us have "get_cell (view st2 ?ob) 1 1 = get_cell (view ?st ?ob) 1 1" by simp
  with e have a2: "get_cell (view st2 ?ob) 1 1 = Inr ''1''" by simp
  from X have o: "get_cell (view ?st ?ob) 0 1 = Inl RequestOutOfBounds"
    "get_cell (view ?st ?ob) 1 0 = Inl RequestOutOfBounds" by blast+
  have p1: "\<exists>st'. insert_into_cell ?st ?ob ''3'' 0 1 True = (None, st')
         \<and> get_cell (view st' ?ob) 4 1 = Inr ''3'' \<and> get_cell (view st' ?ob) 1 1 = Inr ''1''"
    using st1(1,2) a1 by blast
  have p2: "\<exists>st'. insert_into_cell ?st ?ob ''3'' 1 0 True = (None, st')
         \<and> get_cell (view st' ?ob) 1 4 = Inr ''3'' \<and> get_cell (view st' ?ob) 1 1 = Inr ''1''"
    using st2(1,2) a2 by blast
  show ?thesis using vr ws h(1,2) us o p1 p2 by blast
qed


text \<open>
  C8 (as amended).  \<open>is_violating\<close> raises before it reads the grid, whatever the grid and
  the position are: \<open>IsNotCharacter\<close> when the symbol is not exactly one character,
  \<open>IncorrectCharacter\<close> when it is one character that is not in \<open>chars\<close>.  The function
  has no assignment, so the grid is the same after the call.
\<close>

theorem is_violating_rejects_symbol:
  "(length char \<noteq> 1 \<longrightarrow> is_violating s char column line = Inl (IsNotCharacter char))
   \<and> (length char = 1 \<and> char \<notin> set (chars s) \<longrightarrow>
        is_violating s char column line = Inl (IncorrectCharacter char))"
  by (simp add: is_violating_def)

theorem is_violating_rejects_symbol_witness:
  "length ''12'' \<noteq> 1
   \<and> is_violating example_solved ''12'' 1 1 = Inl (IsNotCharacter ''12'')
   \<and> length ''5'' = 1 \<and> ''5'' \<notin> set (chars example_solved)
   \<and> is_violating example_solved ''5'' 1 1 = Inl (IncorrectCharacter ''5'')"
  using is_violating_rejects_symbol[of "''12''" example_solved 1 1]
    is_violating_rejects_symbol[of "''5''" example_solved 1 1]
  by (simp add: example_solved_def)

theorem is_violating_two_characters_counterexample:
  "is_violating example_solved ''12'' 1 1 \<noteq> Inl (IncorrectCharacter ''12'')"
  by (simp add: is_violating_def)

text \<open>
  C9 (as amended).  The alphabet table is the ordered list of the 64 one-character
  strings \<open>1\<close> to \<open>9\<close>, \<open>A\<close> to \<open>Z\<close>, \<open>a\<close> to \<open>z\<close>, \<open>?\<close>, \<open>&\<close>, \<open>!\<close>, without repetition.
  An object that the constructor returns, generated or built from an architecture, has
  as its \<open>chars\<close> the first \<open>size\<^sup>2\<close> entries of the table, without repetition; these are
  \<open>size\<^sup>2\<close> symbols when \<open>size\<close> is at most 8.
\<close>

theorem alphabet_table:
  "AVAILABLE_CHARS =
     map (\<lambda>c. [c]) (''123456789'' @ ''ABCDEFGHIJKLMNOPQRSTUVWXYZ''
                       @ ''abcdefghijklmnopqrstuvwxyz'' @ ''?&!'')
   \<and> length AVAILABLE_CHARS = 64 \<and> distinct AVAILABLE_CHARS
   \<and> (Sudoku_init size' architecture rs = Some (Inr (s, rs')) \<longrightarrow>
        chars s = take (nat (size_s s ^ 2)) AVAILABLE_CHARS \<and> distinct (chars s)
        \<and> (size_s s \<le> 8 \<longrightarrow> length (chars s) = nat (size_s s ^ 2)))"
proof -
  have "AVAILABLE_CHARS =
     map (\<lambda>c. [c]) (''123456789'' @ ''ABCDEFGHIJKLMNOPQRSTUVWXYZ''
                       @ ''abcdefghijklmnopqrstuvwxyz'' @ ''?&!'')"
    by (simp add: AVAILABLE_CHARS_def)
  moreover have "chars s = take (nat (size_s s ^ 2)) AVAILABLE_CHARS \<and> distinct (chars s)
        \<and> (size_s s \<le> 8 \<longrightarrow> length (chars s) = nat (size_s s ^ 2))"
    if "Sudoku_init size' architecture rs = Some (Inr (s, rs'))"
    using Sudoku_init_fields[OF that] distinct_alphabet[of "size_s s"]
      length_alphabet[of "size_s s"]
    by (auto simp: alphabet_def power2_eq_square)
  ultimately show ?thesis
    using length_AVAILABLE_CHARS distinct_AVAILABLE_CHARS by blast
qed

theorem alphabet_table_witness:
  "Sudoku_init 2 [] example_rs = Some (Inr (example_solved, []))
   \<and> size_s example_solved \<le> 8
   \<and> chars example_solved = take 4 AVAILABLE_CHARS
   \<and> distinct (chars example_solved) \<and> length (chars example_solved) = 4"
  using alphabet_table[of 2 "[]" example_rs example_solved "[]"] example_run
  by (simp add: example_solved_def)

theorem alphabet_table_65_counterexample: "length AVAILABLE_CHARS \<noteq> 65"
  by (simp add: AVAILABLE_CHARS_def)

end
